theory Spec2Isabelle
  imports Main "HOL-Library.Char_ord" "HOL-Library.List_Lexorder"
begin

section \<open>Paths (os.path on POSIX byte strings)\<close>

text \<open>
  Paths are byte strings, modelled as \<^typ>\<open>string\<close>. The functions below follow
  \<^verbatim>\<open>posixpath\<close>: \<^verbatim>\<open>dirname\<close>, \<^verbatim>\<open>basename\<close>, \<^verbatim>\<open>join\<close> (two arguments) and
  \<^verbatim>\<open>bytes.rstrip(b'/')\<close>, \<^verbatim>\<open>bytes.split(b'/')\<close>, \<^verbatim>\<open>b'/'.join\<close>.
\<close>

type_synonym path = string

definition sep :: char where
  "sep = CHR ''/''"

definition ROOT_TREE_KEY :: path where
  "ROOT_TREE_KEY = []"

definition rstrip_sep :: "path \<Rightarrow> path" where
  "rstrip_sep p = rev (dropWhile (\<lambda>c. c = sep) (rev p))"

text \<open>\<^verbatim>\<open>if p.endswith(b'/'): p = p.rstrip(b'/')\<close>, as the walker and the updater do.\<close>

definition strip_trailing_sep :: "path \<Rightarrow> path" where
  "strip_trailing_sep p = (if p \<noteq> [] \<and> last p = sep then rstrip_sep p else p)"

text \<open>\<^verbatim>\<open>p[:i]\<close> and \<^verbatim>\<open>p[i:]\<close> for \<^verbatim>\<open>i = p.rfind(b'/') + 1\<close>.\<close>

definition upto_last_sep :: "path \<Rightarrow> path" where
  "upto_last_sep p = rev (dropWhile (\<lambda>c. c \<noteq> sep) (rev p))"

definition basename :: "path \<Rightarrow> path" where
  "basename p = rev (takeWhile (\<lambda>c. c \<noteq> sep) (rev p))"

definition dirname :: "path \<Rightarrow> path" where
  "dirname p =
     (let head = upto_last_sep p
      in if head \<noteq> [] \<and> head \<noteq> replicate (length head) sep then rstrip_sep head else head)"

definition join :: "path \<Rightarrow> path \<Rightarrow> path" where
  "join a b =
     (if take 1 b = [sep] then b
      else if a = [] \<or> last a = sep then a @ b
      else a @ [sep] @ b)"

fun split_sep_acc :: "string \<Rightarrow> string \<Rightarrow> string list" where
  "split_sep_acc acc [] = [rev acc]"
| "split_sep_acc acc (c # cs) =
     (if c = sep then rev acc # split_sep_acc [] cs else split_sep_acc (c # acc) cs)"

definition split_sep :: "string \<Rightarrow> string list" where
  "split_sep p = split_sep_acc [] p"

fun join_sep :: "string list \<Rightarrow> string" where
  "join_sep [] = []"
| "join_sep [c] = c"
| "join_sep (c # cs) = c @ [sep] @ join_sep cs"

section \<open>Entries and the hash index\<close>

datatype GitType = T_BLOB | T_TREE | T_EXEC | T_LINK | T_COMM | T_RELE | T_REFS

datatype GitPerm = P_BLOB | P_TREE | P_EXEC | P_LINK

text \<open>\<^verbatim>\<open>int(perms.value, 8)\<close>: the octal strings 100644, 40000, 100755, 120000.\<close>

fun perms_mode :: "GitPerm \<Rightarrow> nat" where
  "perms_mode P_BLOB = 33188"
| "perms_mode P_TREE = 16384"
| "perms_mode P_EXEC = 33261"
| "perms_mode P_LINK = 40960"

text \<open>
  An entry is the dictionary built by \<^verbatim>\<open>compute_link_metadata\<close>,
  \<^verbatim>\<open>compute_blob_metadata\<close> and \<^verbatim>\<open>compute_tree_metadata\<close>. The digest engine's
  other algorithms are kept in \<open>others\<close>; \<open>data\<close> and \<open>data_length\<close> (the
  keys \<^verbatim>\<open>data\<close> and \<^verbatim>\<open>length\<close>) are present for links only.
\<close>

record entry =
  name :: string
  perms :: GitPerm
  type :: GitType
  sha1_git :: string
  path :: path
  others :: "(string \<times> string) list"
  data :: "string option"
  data_length :: "nat option"

type_synonym index = "path \<rightharpoonup> entry list"

datatype error = KeyError path | IndexError | OSError path
  | ValueError_empty | ValueError_mix | RecursionError

text \<open>
  The external collaborators of \<^verbatim>\<open>swh.model.hashutil\<close> and
  \<^verbatim>\<open>swh.model.identifiers\<close>, taken as parameters: the content digests of a byte
  string and of a file's content, and the canonical tree digest
  (\<^verbatim>\<open>hash_to_bytes(directory_identifier(...))\<close>) of a list of
  (name, mode, target, kind) rows.
\<close>

record delegate =
  hash_data :: "string \<Rightarrow> string \<times> (string \<times> string) list"
  hash_path :: "string \<Rightarrow> string \<times> (string \<times> string) list"
  directory_identifier :: "(string \<times> nat \<times> string \<times> string) list \<Rightarrow> string"

definition compute_directory_git_sha1 :: "delegate \<Rightarrow> path \<Rightarrow> index \<Rightarrow> error + string" where
  "compute_directory_git_sha1 D dirpath hashes =
     (case hashes dirpath of
        None \<Rightarrow> Inl (KeyError dirpath)
      | Some es \<Rightarrow>
          Inr (directory_identifier D
                 (map (\<lambda>e. (name e, perms_mode (perms e), sha1_git e,
                             if perms e = P_TREE then ''dir'' else ''file'')) es)))"

definition compute_tree_metadata :: "delegate \<Rightarrow> path \<Rightarrow> index \<Rightarrow> error + entry" where
  "compute_tree_metadata D dirname' ls_hashes =
     (case compute_directory_git_sha1 D dirname' ls_hashes of
        Inl e \<Rightarrow> Inl e
      | Inr h \<Rightarrow>
          Inr \<lparr>name = basename dirname', perms = P_TREE, type = T_TREE, sha1_git = h,
               path = dirname', others = [], data = None, data_length = None\<rparr>)"

section \<open>The filesystem collaborator\<close>

text \<open>
  The filesystem is a tree whose root is \<^verbatim>\<open>/\<close>. A symlink is a leaf: it carries its
  target text and whether the target is a directory (which decides whether
  \<^verbatim>\<open>os.walk\<close> lists it among the directory names); it is never followed. A path is
  resolved component by component from \<^verbatim>\<open>/\<close> (which is also the working directory
  of a relative path), empty and \<^verbatim>\<open>.\<close> components skipped; a component
  \<^verbatim>\<open>..\<close> resolves like any other name, so to nothing in a tree that has no entry of
  that name; the empty path does not resolve.
\<close>

datatype node = File string bool | Link string bool | Dir "(string \<times> node) list"

fun lookup_comps :: "node \<Rightarrow> string list \<Rightarrow> node option" where
  "lookup_comps n [] = Some n"
| "lookup_comps (Dir es) (c # cs) =
     (case map_of es c of None \<Rightarrow> None | Some ch \<Rightarrow> lookup_comps ch cs)"
| "lookup_comps _ (c # cs) = None"

definition comps_of :: "path \<Rightarrow> string list" where
  "comps_of p = filter (\<lambda>c. c \<noteq> [] \<and> c \<noteq> ''.'') (split_sep p)"

definition lookup :: "node \<Rightarrow> path \<Rightarrow> node option" where
  "lookup fs p = (if p = [] then None else lookup_comps fs (comps_of p))"

definition islink :: "node \<Rightarrow> path \<Rightarrow> bool" where
  "islink fs p = (case lookup fs p of Some (Link t d) \<Rightarrow> True | _ \<Rightarrow> False)"

text \<open>\<^verbatim>\<open>os.walk(top, topdown=False)\<close>: each directory after its subdirectories.\<close>

definition dirnames_of :: "(string \<times> node) list \<Rightarrow> string list" where
  "dirnames_of es =
     map fst (filter (\<lambda>(n, c). case c of Dir x \<Rightarrow> True | Link t d \<Rightarrow> d | File s x \<Rightarrow> False) es)"

definition filenames_of :: "(string \<times> node) list \<Rightarrow> string list" where
  "filenames_of es =
     map fst (filter (\<lambda>(n, c). case c of Dir x \<Rightarrow> False | Link t d \<Rightarrow> \<not> d | File s x \<Rightarrow> True) es)"

fun walk_node :: "path \<Rightarrow> node \<Rightarrow> (path \<times> string list \<times> string list) list"
  and walk_children :: "path \<Rightarrow> (string \<times> node) list \<Rightarrow> (path \<times> string list \<times> string list) list"
where
  "walk_node tp (Dir es) = walk_children tp es @ [(tp, dirnames_of es, filenames_of es)]"
| "walk_node tp (File s x) = []"
| "walk_node tp (Link t d) = []"
| "walk_children tp [] = []"
| "walk_children tp ((n, c) # es) = walk_node (join tp n) c @ walk_children tp es"

definition os_walk :: "node \<Rightarrow> path \<Rightarrow> (path \<times> string list \<times> string list) list" where
  "os_walk fs tp =
     (case lookup fs tp of Some (Dir es) \<Rightarrow> walk_node tp (Dir es) | _ \<Rightarrow> [])"


text \<open>
  \<^verbatim>\<open>os.rmdir\<close>, \<^verbatim>\<open>os.remove\<close> and \<^verbatim>\<open>os.removedirs\<close>. The last removes the
  directory (an error if that fails), then every parent that has become empty, stopping
  silently at the first one that cannot be removed.
\<close>

fun delete_comps :: "node \<Rightarrow> string list \<Rightarrow> node"
  and delete_in :: "(string \<times> node) list \<Rightarrow> string \<Rightarrow> string list \<Rightarrow> (string \<times> node) list"
where
  "delete_comps (Dir es) [c] = Dir (filter (\<lambda>x. fst x \<noteq> c) es)"
| "delete_comps (Dir es) (c # c' # cs) = Dir (delete_in es c (c' # cs))"
| "delete_comps (Dir es) [] = Dir es"
| "delete_comps (File s x) cs = File s x"
| "delete_comps (Link t d) cs = Link t d"
| "delete_in [] c cs = []"
| "delete_in ((n, ch) # es) c cs =
     (if n = c then (n, delete_comps ch cs) # es else (n, ch) # delete_in es c cs)"

definition os_rmdir :: "node \<Rightarrow> path \<Rightarrow> error + node" where
  "os_rmdir fs p =
     (case lookup fs p of
        Some (Dir []) \<Rightarrow>
          if comps_of p = [] then Inl (OSError p) else Inr (delete_comps fs (comps_of p))
      | _ \<Rightarrow> Inl (OSError p))"

definition os_remove :: "node \<Rightarrow> path \<Rightarrow> error + node" where
  "os_remove fs p =
     (case lookup fs p of
        None \<Rightarrow> Inl (OSError p)
      | Some (Dir es) \<Rightarrow> Inl (OSError p)
      | Some n \<Rightarrow> Inr (delete_comps fs (comps_of p)))"

lemma upto_last_sep_basename: "upto_last_sep p @ basename p = p"
proof -
  have "rev (takeWhile (\<lambda>c. c \<noteq> sep) (rev p) @ dropWhile (\<lambda>c. c \<noteq> sep) (rev p)) = p"
    by simp
  then show ?thesis
    unfolding upto_last_sep_def basename_def by (simp only: rev_append)
qed

lemma length_rstrip_sep: "length (rstrip_sep p) \<le> length p"
  by (simp add: rstrip_sep_def length_dropWhile_le [of _ "rev p", simplified])

lemma length_dirname_basename: "length (dirname p) + length (basename p) \<le> length p"
proof -
  have a: "length (upto_last_sep p) + length (basename p) = length p"
    using upto_last_sep_basename [of p] by (metis length_append)
  have b: "length (dirname p) \<le> length (upto_last_sep p)"
    by (simp add: dirname_def Let_def length_rstrip_sep)
  from a b show ?thesis by linarith
qed

lemma split_sep_acc_replicate:
  "split_sep_acc acc (replicate n sep) = rev acc # replicate n []"
  by (induction n arbitrary: acc) auto

lemma comps_of_replicate_sep: "comps_of (replicate n sep) = []"
  by (simp add: comps_of_def split_sep_def split_sep_acc_replicate)

lemma length_dirname_less:
  assumes "p \<noteq> []" and "p \<noteq> replicate (length p) sep"
  shows "length (dirname p) < length p"
proof (cases "basename p = []")
  case False
  then have "0 < length (basename p)" by simp
  with length_dirname_basename [of p] show ?thesis by linarith
next
  case True
  then have u: "upto_last_sep p = p"
    using upto_last_sep_basename [of p] by simp
  have d: "dirname p = rstrip_sep p"
    unfolding dirname_def Let_def u using assms by simp
  have "rev (upto_last_sep p) = rev p"
    by (simp only: u)
  then have e: "dropWhile (\<lambda>c. c \<noteq> sep) (rev p) = rev p"
    by (simp add: upto_last_sep_def)
  have n: "rev p \<noteq> []" using assms(1) by simp
  have "\<not> (hd (dropWhile (\<lambda>c. c \<noteq> sep) (rev p)) \<noteq> sep)"
    by (rule hd_dropWhile) (simp only: e n not_False_eq_True)
  then have "hd (rev p) = sep"
    by (simp only: e not_not)
  then obtain xs where r: "rev p = sep # xs"
    using n by (cases "rev p") auto
  have "length (rstrip_sep p) \<le> length xs"
    by (simp add: rstrip_sep_def r length_dropWhile_le)
  moreover have "length (rev p) = Suc (length xs)"
    by (simp only: r length_Cons)
  ultimately show ?thesis using d by simp
qed

function removedirs_up :: "node \<Rightarrow> path \<Rightarrow> path \<Rightarrow> node" where
  "removedirs_up fs head tail =
     (if head \<noteq> [] \<and> tail \<noteq> [] then
        (case os_rmdir fs head of
           Inl e \<Rightarrow> fs
         | Inr fs' \<Rightarrow> removedirs_up fs' (dirname head) (basename head))
      else fs)"
  by pat_completeness auto
termination
proof (relation "measure (\<lambda>(fs, head, tail). length head)")
  show "wf (measure (\<lambda>(fs, head, tail). length head))" by simp
next
  fix fs :: node and head tail :: path and fs' :: node
  assume h: "head \<noteq> [] \<and> tail \<noteq> []" and r: "os_rmdir fs head = Inr fs'"
  have "comps_of head \<noteq> []"
    using r by (auto simp: os_rmdir_def split: option.splits node.splits list.splits if_splits)
  then have "head \<noteq> replicate (length head) sep"
    by (metis comps_of_replicate_sep)
  then have "length (dirname head) < length head"
    using h length_dirname_less by blast
  then show "((fs', dirname head, basename head), (fs, head, tail))
       \<in> measure (\<lambda>(fs, head, tail). length head)"
    by simp
qed

definition os_removedirs :: "node \<Rightarrow> path \<Rightarrow> error + node" where
  "os_removedirs fs name' =
     (case os_rmdir fs name' of
        Inl e \<Rightarrow> Inl e
      | Inr fs' \<Rightarrow>
          (let (head, tail) = (dirname name', basename name');
               (head, tail) = (if tail = [] then (dirname head, basename head) else (head, tail))
           in Inr (removedirs_up fs' head tail)))"

section \<open>Entry metadata\<close>

definition compute_link_metadata :: "delegate \<Rightarrow> node \<Rightarrow> path \<Rightarrow> error + entry" where
  "compute_link_metadata D fs linkpath =
     (case lookup fs linkpath of
        Some (Link t d) \<Rightarrow>
          Inr \<lparr>name = basename linkpath, perms = P_LINK, type = T_BLOB,
               sha1_git = fst (hash_data D t), path = linkpath,
               others = snd (hash_data D t), data = Some t, data_length = Some (length t)\<rparr>
      | _ \<Rightarrow> Inl (OSError linkpath))"

definition compute_blob_metadata :: "delegate \<Rightarrow> node \<Rightarrow> path \<Rightarrow> error + entry" where
  "compute_blob_metadata D fs filepath =
     (case lookup fs filepath of
        Some (File s x) \<Rightarrow>
          Inr \<lparr>name = basename filepath, perms = (if x then P_EXEC else P_BLOB), type = T_BLOB,
               sha1_git = fst (hash_path D s), path = filepath,
               others = snd (hash_path D s), data = None, data_length = None\<rparr>
      | _ \<Rightarrow> Inl (OSError filepath))"

text \<open>A loop that appends the result of a fallible call to a list stops at the first error.\<close>

fun mapE :: "('a \<Rightarrow> error + 'b) \<Rightarrow> 'a list \<Rightarrow> error + 'b list" where
  "mapE f [] = Inr []"
| "mapE f (x # xs) =
     (case f x of
        Inl e \<Rightarrow> Inl e
      | Inr y \<Rightarrow> (case mapE f xs of Inl e \<Rightarrow> Inl e | Inr ys \<Rightarrow> Inr (y # ys)))"

section \<open>The tree walker\<close>

definition filtfn :: "(path \<Rightarrow> bool) \<Rightarrow> path \<Rightarrow> string list \<Rightarrow> string list" where
  "filtfn dir_ok_fn dirpath dirnames = filter (\<lambda>dirname'. dir_ok_fn (join dirpath dirname')) dirnames"

definition gen_dir ::
  "(path \<Rightarrow> bool) \<Rightarrow> (path \<times> string list \<times> string list) list
     \<Rightarrow> (path \<times> string list \<times> string list) list" where
  "gen_dir dir_ok_fn walked =
     map (\<lambda>(dp, dns, fns). (dp, filtfn dir_ok_fn dp dns, fns))
       (filter (\<lambda>(dp, dns, fns). dir_ok_fn dp) walked)"

text \<open>
  The round-trip that removes empty folders. \<^verbatim>\<open>os.walk\<close> has listed a directory
  before its subdirectories are visited, so the listing the loop sees is the one of the
  filesystem before the pass; the tests on the directory itself read the current state.
  An error of a removal ends the pass and leaves the filesystem as it is at that point.
\<close>

fun prune_dirs :: "node \<Rightarrow> (path \<times> string list \<times> string list) list \<Rightarrow> node \<times> error option" where
  "prune_dirs fs [] = (fs, None)"
| "prune_dirs fs ((dirpath, dirnames, filenames) # rest) =
     (if dirnames = [] \<and> filenames = [] then
        (case (if islink fs dirpath then os_remove fs dirpath else os_removedirs fs dirpath) of
           Inl e \<Rightarrow> (fs, Some e)
         | Inr fs' \<Rightarrow> prune_dirs fs' rest)
      else prune_dirs fs rest)"

text \<open>
  One iteration of the hashing loop on (dirpath, dirnames, filenames), with the state
  (\<open>ls_hashes\<close>, \<open>all_links\<close>).
\<close>

definition hash_dir ::
  "delegate \<Rightarrow> node \<Rightarrow> path \<times> string list \<times> string list \<Rightarrow> index \<times> path set
     \<Rightarrow> error + index \<times> path set" where
  "hash_dir D fs t st =
     (case t of (dirpath, dirnames, filenames) \<Rightarrow>
      case st of (ls_hashes, all_links) \<Rightarrow>
       (let links = filter (islink fs) (map (join dirpath) (filenames @ dirnames));
            all_links = all_links \<union> set links
        in case mapE (compute_link_metadata D fs) links of
             Inl e \<Rightarrow> Inl e
           | Inr link_hashes \<Rightarrow>
        (let only_files = filter (\<lambda>p. p \<notin> all_links) (map (join dirpath) filenames)
         in case mapE (compute_blob_metadata D fs) only_files of
              Inl e \<Rightarrow> Inl e
            | Inr blob_hashes \<Rightarrow>
         (let hashes = link_hashes @ blob_hashes;
              ls_hashes = ls_hashes(dirpath \<mapsto> hashes);
              subdirs = filter (\<lambda>p. p \<notin> all_links) (map (join dirpath) dirnames)
          in case mapE (\<lambda>fulldirname. compute_tree_metadata D fulldirname ls_hashes) subdirs of
               Inl e \<Rightarrow> Inl e
             | Inr dir_hashes \<Rightarrow> Inr (ls_hashes(dirpath \<mapsto> hashes @ dir_hashes), all_links)))))"

fun hash_dirs ::
  "delegate \<Rightarrow> node \<Rightarrow> (path \<times> string list \<times> string list) list \<Rightarrow> index \<times> path set
     \<Rightarrow> error + index \<times> path set" where
  "hash_dirs D fs [] st = Inr st"
| "hash_dirs D fs (t # rest) st =
     (case hash_dir D fs t st of Inl e \<Rightarrow> Inl e | Inr st' \<Rightarrow> hash_dirs D fs rest st')"

text \<open>
  The walker returns the filesystem it leaves behind (changed by the optional pruning
  pass only) and either an error or the index.
\<close>

definition walk_and_compute_sha1_from_directory ::
  "delegate \<Rightarrow> node \<Rightarrow> path \<Rightarrow> (path \<Rightarrow> bool) \<Rightarrow> bool \<Rightarrow> bool \<Rightarrow> node \<times> (error + index)" where
  "walk_and_compute_sha1_from_directory D fs rootdir dir_ok_fn with_root_tree remove_empty_folder =
     (let rootdir = strip_trailing_sep rootdir;
          (fs, err) = (if remove_empty_folder
                       then prune_dirs fs (gen_dir dir_ok_fn (os_walk fs rootdir))
                       else (fs, None))
      in case err of
           Some e \<Rightarrow> (fs, Inl e)
         | None \<Rightarrow>
             (case hash_dirs D fs (gen_dir dir_ok_fn (os_walk fs rootdir)) (Map.empty, {}) of
                Inl e \<Rightarrow> (fs, Inl e)
              | Inr (ls_hashes, all_links) \<Rightarrow>
                  if with_root_tree then
                    (case compute_directory_git_sha1 D rootdir ls_hashes of
                       Inl e \<Rightarrow> (fs, Inl e)
                     | Inr h \<Rightarrow>
                         (fs, Inr (ls_hashes(ROOT_TREE_KEY \<mapsto>
                            [\<lparr>name = basename rootdir, perms = P_TREE, type = T_TREE,
                              sha1_git = h, path = rootdir, others = [], data = None,
                              data_length = None\<rparr>]))))
                  else (fs, Inr ls_hashes)))"

section \<open>Recomputing the ancestors in memory\<close>

text \<open>
  The inner loop of \<^verbatim>\<open>recompute_sha1_in_memory\<close> over the entries of one directory.
  The assignment \<^verbatim>\<open>objects[rootdir] = ls_hashes\<close> stands inside the loop, so from
  the second entry on the index already holds the list built so far. An error leaves the
  index as it is at that point.
\<close>

fun recompute_entries ::
  "delegate \<Rightarrow> path \<Rightarrow> entry list \<Rightarrow> index \<Rightarrow> entry list \<Rightarrow> index \<times> error option" where
  "recompute_entries D rootdir [] objects ls_hashes = (objects, None)"
| "recompute_entries D rootdir (hashfile # files) objects ls_hashes =
     (if type hashfile = T_TREE then
        (case compute_tree_metadata D (path hashfile) objects of
           Inl e \<Rightarrow> (objects, Some e)
         | Inr tree_hash \<Rightarrow>
             recompute_entries D rootdir files
               (objects(rootdir \<mapsto> ls_hashes @ [tree_hash])) (ls_hashes @ [tree_hash]))
      else
        recompute_entries D rootdir files
          (objects(rootdir \<mapsto> ls_hashes @ [hashfile])) (ls_hashes @ [hashfile]))"

text \<open>
  The \<^verbatim>\<open>while rootdir != upper_root\<close> loop. It need not end (a path equal to its own
  \<^verbatim>\<open>dirname\<close> and different from \<open>upper_root\<close> is visited forever), so its result is
  an option: \<open>None\<close> is the loop that does not return.
\<close>

partial_function (option) recompute_loop ::
  "delegate \<Rightarrow> path \<Rightarrow> path \<Rightarrow> index \<Rightarrow> (index \<times> error option) option" where
  "recompute_loop D upper_root rootdir objects =
     (if rootdir \<noteq> upper_root then
        (case objects rootdir of
           None \<Rightarrow> Some (objects, Some (KeyError rootdir))
         | Some files \<Rightarrow>
             (case recompute_entries D rootdir files objects [] of
                (objects', Some e) \<Rightarrow> Some (objects', Some e)
              | (objects', None) \<Rightarrow> recompute_loop D upper_root (dirname rootdir) objects'))
      else Some (objects, None))"

definition recompute_sha1_in_memory ::
  "delegate \<Rightarrow> path \<Rightarrow> path \<Rightarrow> index \<Rightarrow> (index \<times> error option) option" where
  "recompute_sha1_in_memory D root deeper_rootdir objects =
     (case recompute_loop D (dirname root) (dirname deeper_rootdir) objects of
        None \<Rightarrow> None
      | Some (objects', Some e) \<Rightarrow> Some (objects', Some e)
      | Some (objects', None) \<Rightarrow>
          (case compute_directory_git_sha1 D root objects' of
             Inl e \<Rightarrow> Some (objects', Some e)
           | Inr root_tree_hash \<Rightarrow>
               (case objects' ROOT_TREE_KEY of
                  None \<Rightarrow> Some (objects', Some (KeyError ROOT_TREE_KEY))
                | Some [] \<Rightarrow> Some (objects', Some IndexError)
                | Some (e # es) \<Rightarrow>
                    Some (objects'(ROOT_TREE_KEY \<mapsto> e\<lparr>sha1_git := root_tree_hash\<rparr> # es), None))))"

section \<open>The longest common sub-path\<close>

fun common_prefix :: "string list \<Rightarrow> string list \<Rightarrow> error + string list" where
  "common_prefix [] s2 = Inr []"
| "common_prefix (c # s1) [] = Inl IndexError"
| "common_prefix (c # s1) (d # s2) =
     (if c \<noteq> d then Inr []
      else (case common_prefix s1 s2 of Inl e \<Rightarrow> Inl e | Inr common \<Rightarrow> Inr (c # common)))"

definition commonpath :: "path list \<Rightarrow> error + path" where
  "commonpath paths =
     (if paths = [] then Inl ValueError_empty
      else
        (let split_paths = map split_sep paths;
             isabs_set = map (\<lambda>p. take 1 p = [sep]) paths
         in if True \<in> set isabs_set \<and> False \<in> set isabs_set then Inl ValueError_mix
            else
              (let isabs = hd isabs_set;
                   split_paths = map (filter (\<lambda>c. c \<noteq> [] \<and> c \<noteq> ''.'')) split_paths;
                   s1 = fold min (tl split_paths) (hd split_paths);
                   s2 = fold max (tl split_paths) (hd split_paths)
               in case common_prefix s1 s2 of
                    Inl e \<Rightarrow> Inl e
                  | Inr common \<Rightarrow> Inr ((if isabs then [sep] else []) @ join_sep common))))"

section \<open>Cascading removal\<close>

text \<open>
  Python's \<^verbatim>\<open>p != path\<close> in the filter of \<^verbatim>\<open>__remove_paths_from_objects\<close> compares
  an entry (a dictionary) with a path (a byte string): values of different types are
  never equal, so the test holds for every entry.
\<close>

definition entry_ne_path :: "entry \<Rightarrow> path \<Rightarrow> bool" where
  "entry_ne_path p path' = True"

text \<open>
  One pass over \<open>rootpaths\<close> with the state (\<open>objects\<close>, \<open>dirpaths_to_clean\<close>). The
  set \<open>dirpaths_to_clean\<close> is kept as a list without duplicates. The value stored by
  \<^verbatim>\<open>objects[parent] = filter(...)\<close> is a lazy filter object; it is modelled by the list
  of the entries it yields when it is read for the first time (it is built from a non-empty
  list and drops nothing, so it is true like that list). What a second read of such an
  object, or indexing it, does is not described by the model.
\<close>

definition remove_path ::
  "(path \<Rightarrow> bool) \<Rightarrow> path \<Rightarrow> index \<times> path list \<Rightarrow> index \<times> path list" where
  "remove_path dir_ok_fn path' st =
     (case st of (objects, dirpaths_to_clean) \<Rightarrow>
       (let path_list = objects path';
            objects = objects(path' := None);
            dirpaths_to_clean =
              (case path_list of
                 None \<Rightarrow> dirpaths_to_clean
               | Some children \<Rightarrow>
                   fold (\<lambda>child dtc. if type child = T_TREE then List.insert (path child) dtc else dtc)
                     children dirpaths_to_clean);
            parent = dirname path';
            parent_check = dir_ok_fn parent
        in if \<not> parent_check \<and> parent \<notin> set dirpaths_to_clean
           then (objects, List.insert parent dirpaths_to_clean)
           else
             (case objects parent of
                None \<Rightarrow> (objects, dirpaths_to_clean)
              | Some l \<Rightarrow>
                  if l \<noteq> []
                  then (objects(parent \<mapsto> filter (\<lambda>p. entry_ne_path p path') l), dirpaths_to_clean)
                  else (objects, dirpaths_to_clean))))"

text \<open>
  The recursion on the queued directories. Each level of the cascade is one more nested
  call of the function, and the interpreter raises \<^verbatim>\<open>RecursionError\<close> when the calls
  nest deeper than its recursion limit allows. \<open>recursion_limit\<close> is the number of nested
  calls of the function that the interpreter still allows when the function is called. The
  result is the index as the call leaves it (it is changed in place, also when the call
  raises) and the error raised, if any.
\<close>

fun remove_paths_from_objects ::
  "nat \<Rightarrow> (path \<Rightarrow> bool) \<Rightarrow> index \<Rightarrow> path list \<Rightarrow> index \<times> error option" where
  "remove_paths_from_objects 0 dir_ok_fn objects rootpaths = (objects, Some RecursionError)"
| "remove_paths_from_objects (Suc recursion_limit) dir_ok_fn objects rootpaths =
     (case fold (remove_path dir_ok_fn) rootpaths (objects, []) of
        (objects', dirpaths_to_clean) \<Rightarrow>
          if dirpaths_to_clean \<noteq> []
          then remove_paths_from_objects recursion_limit dir_ok_fn objects' dirpaths_to_clean
          else (objects', None))"

declare recompute_loop.simps [code]

section \<open>The incremental updater\<close>

record changed_path =
  cpath :: path
  action :: string

text \<open>
  The first loop of \<^verbatim>\<open>update_checksums_from\<close>, with the state (\<open>paths\<close>,
  \<open>paths_to_remove\<close>), two sets kept as lists without duplicates. \<open>None\<close> is the
  early return that recomputes everything.
\<close>

fun scan_changes ::
  "path \<Rightarrow> changed_path list \<Rightarrow> path list \<times> path list \<Rightarrow> (path list \<times> path list) option" where
  "scan_changes root [] st = Some st"
| "scan_changes root (changed_path # rest) (paths, paths_to_remove) =
     (let path' = cpath changed_path;
          parent = dirname path'
      in if parent = root then None
         else
           (let paths_to_remove =
                  (if action changed_path = ''D'' then List.insert path' paths_to_remove
                   else paths_to_remove)
            in scan_changes root rest (List.insert parent paths, paths_to_remove)))"

text \<open>
  The result of a call: the filesystem it leaves, the caller's index as the call leaves
  it (the index is changed in place), and what the call returns or raises. The whole
  result is an option, \<open>None\<close> for a call that does not return (the loop of
  \<^verbatim>\<open>recompute_sha1_in_memory\<close>). \<open>recursion_limit\<close> is the number of nested calls the
  interpreter allows to the cascading removal.
\<close>

type_synonym update_result = "node \<times> index \<times> (error + index)"

definition full_walk ::
  "delegate \<Rightarrow> node \<Rightarrow> path \<Rightarrow> (path \<Rightarrow> bool) \<Rightarrow> bool \<Rightarrow> index \<Rightarrow> update_result" where
  "full_walk D fs root dir_ok_fn remove_empty_folder objects =
     (case walk_and_compute_sha1_from_directory D fs root dir_ok_fn True remove_empty_folder of
        (fs', r) \<Rightarrow> (fs', objects, r))"

definition update_checksums_from ::
  "delegate \<Rightarrow> node \<Rightarrow> nat \<Rightarrow> changed_path list \<Rightarrow> index \<Rightarrow> (path \<Rightarrow> bool) \<Rightarrow> bool
     \<Rightarrow> update_result option" where
  "update_checksums_from D fs recursion_limit changed_paths objects dir_ok_fn remove_empty_folder =
     (case objects ROOT_TREE_KEY of
        None \<Rightarrow> Some (fs, objects, Inl (KeyError ROOT_TREE_KEY))
      | Some [] \<Rightarrow> Some (fs, objects, Inl IndexError)
      | Some (root_entry # other) \<Rightarrow>
         (let root = path root_entry;
              root = strip_trailing_sep root
          in case scan_changes root changed_paths ([], []) of
               None \<Rightarrow> Some (full_walk D fs root dir_ok_fn remove_empty_folder objects)
             | Some (paths, paths_to_remove) \<Rightarrow>
                 if paths = [] then Some (fs, objects, Inr objects)
                 else
                   (case commonpath paths of
                      Inl e \<Rightarrow> Some (fs, objects, Inl e)
                    | Inr rootdir \<Rightarrow>
                       (case (if paths_to_remove \<noteq> []
                              then remove_paths_from_objects recursion_limit dir_ok_fn objects
                                     paths_to_remove
                              else (objects, None)) of
                          (objects, Some e) \<Rightarrow> Some (fs, objects, Inl e)
                        | (objects, None) \<Rightarrow>
                            if (case objects rootdir of None \<Rightarrow> True | Some l \<Rightarrow> l = [])
                            then Some (full_walk D fs root dir_ok_fn remove_empty_folder objects)
                            else
                              (case walk_and_compute_sha1_from_directory D fs rootdir dir_ok_fn
                                      False remove_empty_folder of
                                 (fs', Inl e) \<Rightarrow> Some (fs', objects, Inl e)
                               | (fs', Inr hashes) \<Rightarrow>
                                   (case recompute_sha1_in_memory D root rootdir (objects ++ hashes) of
                                      None \<Rightarrow> None
                                    | Some (objects', Some e) \<Rightarrow> Some (fs', objects', Inl e)
                                    | Some (objects', None) \<Rightarrow> Some (fs', objects', Inr objects')))))))"

section \<open>Properties of an index\<close>

text \<open>
  The entry list \<open>es\<close> stored for the directory \<open>p\<close> follows the listing
  (\<open>dirnames\<close>, \<open>filenames\<close>): first the entries of the symlinks, in the order of
  \<open>filenames @ dirnames\<close>, then those of the files that are no symlinks, then the tree
  entries of the directories that are no symlinks.
\<close>

definition listed_in_order :: "node \<Rightarrow> path \<Rightarrow> string list \<Rightarrow> string list \<Rightarrow> entry list \<Rightarrow> bool" where
  "listed_in_order fs p dirnames filenames es \<longleftrightarrow>
     (\<exists>L F T. es = L @ F @ T \<and>
        map path L = filter (islink fs) (map (join p) (filenames @ dirnames)) \<and>
        (\<forall>e \<in> set L. perms e = P_LINK \<and> type e = T_BLOB) \<and>
        map path F = filter (\<lambda>q. \<not> islink fs q) (map (join p) filenames) \<and>
        (\<forall>e \<in> set F. (perms e = P_BLOB \<or> perms e = P_EXEC) \<and> type e = T_BLOB) \<and>
        map path T = filter (\<lambda>q. \<not> islink fs q) (map (join p) dirnames) \<and>
        (\<forall>e \<in> set T. perms e = P_TREE \<and> type e = T_TREE))"

text \<open>The invariant of the hashing loop over the listing \<open>ts\<close>.\<close>

definition walk_inv ::
  "node \<Rightarrow> (path \<times> string list \<times> string list) list \<Rightarrow> index \<times> path set \<Rightarrow> bool" where
  "walk_inv fs ts st \<longleftrightarrow>
     (snd st \<subseteq> Collect (islink fs)) \<and>
     (\<forall>p es. fst st p = Some es \<longrightarrow>
        (\<exists>dns fns. (p, dns, fns) \<in> set ts \<and> listed_in_order fs p dns fns es))"

text \<open>
  The closure property: every tree entry of every stored list has its own path as a key.
\<close>

definition closure :: "index \<Rightarrow> bool" where
  "closure idx \<longleftrightarrow>
     (\<forall>p es e. idx p = Some es \<and> e \<in> set es \<and> type e = T_TREE \<longrightarrow> path e \<in> dom idx)"

text \<open>
  The closure property up to a set \<open>R\<close> of excepted paths: a tree entry whose path is
  no key refers to a path of \<open>R\<close>.
\<close>

definition closure_except :: "path set \<Rightarrow> index \<Rightarrow> bool" where
  "closure_except R idx \<longleftrightarrow>
     (\<forall>p es e. idx p = Some es \<and> e \<in> set es \<and> type e = T_TREE
        \<longrightarrow> path e \<in> dom idx \<or> path e \<in> R)"

text \<open>Every list of \<open>idx'\<close> is stored in \<open>idx\<close> under the same key, up to dropped entries.\<close>

definition sub_index :: "index \<Rightarrow> index \<Rightarrow> bool" where
  "sub_index idx' idx \<longleftrightarrow>
     (\<forall>p es. idx' p = Some es \<longrightarrow> (\<exists>es0. idx p = Some es0 \<and> set es \<subseteq> set es0))"

section \<open>Example data\<close>

text \<open>
  A digest engine, a filesystem and indexes on which the theorems below are evaluated.
  The filesystem is the scenario \<^verbatim>\<open>root/a/b/file.txt\<close>, \<^verbatim>\<open>root/c.txt\<close>.
\<close>

definition example_delegate :: delegate where
  "example_delegate =
     \<lparr>hash_data = (\<lambda>s. (''l:'' @ s, [])),
      hash_path = (\<lambda>s. (''c:'' @ s, [])),
      directory_identifier = (\<lambda>rows. concat (map (\<lambda>(n, m, t, k). n @ ''='' @ t @ '';'') rows))\<rparr>"

definition example_fs :: node where
  "example_fs =
     Dir [(''r'', Dir [(''a'', Dir [(''b'', Dir [(''file.txt'', File ''foo'' False)])]),
                       (''c.txt'', File ''bar'' False)])]"

definition tree_entry :: "path \<Rightarrow> string \<Rightarrow> entry" where
  "tree_entry p h =
     \<lparr>name = basename p, perms = P_TREE, type = T_TREE, sha1_git = h,
      path = p, others = [], data = None, data_length = None\<rparr>"

definition sentinel_only :: "path \<Rightarrow> index" where
  "sentinel_only root = [ROOT_TREE_KEY \<mapsto> [tree_entry root []]]"

definition blob_entry :: "path \<Rightarrow> string \<Rightarrow> entry" where
  "blob_entry p h =
     \<lparr>name = basename p, perms = P_BLOB, type = T_BLOB, sha1_git = h,
      path = p, others = [], data = None, data_length = None\<rparr>"

text \<open>The index that the walker returns on \<open>example_fs\<close> from \<^verbatim>\<open>/r\<close>.\<close>

definition example_index :: index where
  "example_index =
     [''/r/a/b'' \<mapsto> [blob_entry ''/r/a/b/file.txt'' ''c:foo''],
      ''/r/a'' \<mapsto> [tree_entry ''/r/a/b'' ''file.txt=c:foo;''],
      ''/r'' \<mapsto> [blob_entry ''/r/c.txt'' ''c:bar'', tree_entry ''/r/a'' ''b=file.txt=c:foo;;''],
      ROOT_TREE_KEY \<mapsto> [tree_entry ''/r'' ''c.txt=c:bar;a=b=file.txt=c:foo;;;'']]"

text \<open>
  A filter that rejects \<^verbatim>\<open>/r/a\<close> and accepts every other path, \<^verbatim>\<open>/r/a/b\<close>
  included, and the index that the walker returns with it on \<open>example_fs\<close>.
\<close>

definition example_filter :: "path \<Rightarrow> bool" where
  "example_filter p \<longleftrightarrow> p \<noteq> ''/r/a''"

definition orphan_index :: index where
  "orphan_index =
     [''/r/a/b'' \<mapsto> [blob_entry ''/r/a/b/file.txt'' ''c:foo''],
      ''/r'' \<mapsto> [blob_entry ''/r/c.txt'' ''c:bar''],
      ROOT_TREE_KEY \<mapsto> [tree_entry ''/r'' ''c.txt=c:bar;'']]"

text \<open>
  A filter that rejects \<^verbatim>\<open>/r/a/b\<close> only, and the index that the walker returns with
  it on \<open>example_fs\<close>: \<^verbatim>\<open>/r/a\<close> is a key with an empty list.
\<close>

definition leaf_filter :: "path \<Rightarrow> bool" where
  "leaf_filter p \<longleftrightarrow> p \<noteq> ''/r/a/b''"

definition leaf_index :: index where
  "leaf_index =
     [''/r/a'' \<mapsto> [],
      ''/r'' \<mapsto> [blob_entry ''/r/c.txt'' ''c:bar'', tree_entry ''/r/a'' []],
      ROOT_TREE_KEY \<mapsto> [tree_entry ''/r'' ''c.txt=c:bar;a=;'']]"

text \<open>
  The mutated filesystem (the content of \<^verbatim>\<open>file.txt\<close> has changed), the change
  descriptor of that mutation, and the indexes the walker returns on the mutated
  filesystem with the filter that accepts everything and with \<open>example_filter\<close>.
\<close>

definition modified_fs :: node where
  "modified_fs =
     Dir [(''r'', Dir [(''a'', Dir [(''b'', Dir [(''file.txt'', File ''foobar'' False)])]),
                       (''c.txt'', File ''bar'' False)])]"

definition example_change :: "changed_path list" where
  "example_change = [\<lparr>cpath = ''/r/a/b/file.txt'', action = ''M''\<rparr>]"

definition modified_index :: index where
  "modified_index =
     [''/r/a/b'' \<mapsto> [blob_entry ''/r/a/b/file.txt'' ''c:foobar''],
      ''/r/a'' \<mapsto> [tree_entry ''/r/a/b'' ''file.txt=c:foobar;''],
      ''/r'' \<mapsto> [blob_entry ''/r/c.txt'' ''c:bar'', tree_entry ''/r/a'' ''b=file.txt=c:foobar;;''],
      ROOT_TREE_KEY \<mapsto> [tree_entry ''/r'' ''c.txt=c:bar;a=b=file.txt=c:foobar;;;'']]"

definition orphan_modified_index :: index where
  "orphan_modified_index =
     [''/r/a/b'' \<mapsto> [blob_entry ''/r/a/b/file.txt'' ''c:foobar''],
      ''/r'' \<mapsto> [blob_entry ''/r/c.txt'' ''c:bar''],
      ROOT_TREE_KEY \<mapsto> [tree_entry ''/r'' ''c.txt=c:bar;'']]"

section \<open>Evaluating the example\<close>

lemmas path_defs = dirname_def basename_def upto_last_sep_def rstrip_sep_def sep_def join_def
  strip_trailing_sep_def
  split_sep_def comps_of_def lookup_def islink_def

lemma os_walk_example:
  "os_walk example_fs ''/r'' =
     [(''/r/a/b'', [], [''file.txt'']), (''/r/a'', [''b''], []), (''/r'', [''a''], [''c.txt''])]"
  by (simp add: os_walk_def example_fs_def path_defs dirnames_of_def filenames_of_def)

lemma walk_example:
  "walk_and_compute_sha1_from_directory example_delegate example_fs ''/r'' (\<lambda>p. True) True False
     = (example_fs, Inr example_index)"
  by (simp add: walk_and_compute_sha1_from_directory_def os_walk_example [unfolded example_fs_def]
      gen_dir_def filtfn_def
      hash_dir_def example_fs_def path_defs compute_link_metadata_def compute_blob_metadata_def
      compute_tree_metadata_def compute_directory_git_sha1_def example_delegate_def
      example_index_def blob_entry_def tree_entry_def ROOT_TREE_KEY_def Let_def)

lemma walk_orphan:
  "walk_and_compute_sha1_from_directory example_delegate example_fs ''/r'' example_filter True False
     = (example_fs, Inr orphan_index)"
  by (simp add: walk_and_compute_sha1_from_directory_def os_walk_example [unfolded example_fs_def]
      gen_dir_def filtfn_def example_filter_def
      hash_dir_def example_fs_def path_defs compute_link_metadata_def compute_blob_metadata_def
      compute_tree_metadata_def compute_directory_git_sha1_def example_delegate_def
      orphan_index_def blob_entry_def tree_entry_def ROOT_TREE_KEY_def Let_def)

lemma walk_leaf:
  "walk_and_compute_sha1_from_directory example_delegate example_fs ''/r'' leaf_filter True False
     = (example_fs, Inr leaf_index)"
  by (simp add: walk_and_compute_sha1_from_directory_def os_walk_example [unfolded example_fs_def]
      gen_dir_def filtfn_def leaf_filter_def
      hash_dir_def example_fs_def path_defs compute_link_metadata_def compute_blob_metadata_def
      compute_tree_metadata_def compute_directory_git_sha1_def example_delegate_def
      leaf_index_def blob_entry_def tree_entry_def ROOT_TREE_KEY_def Let_def)

lemma dirname_example_file: "dirname ''/r/a/b/file.txt'' = ''/r/a/b''"
  by (simp add: dirname_def upto_last_sep_def rstrip_sep_def sep_def Let_def)

lemma dirname_example_rel: "dirname ''x/y/g'' = ''x/y''"
  by (simp add: dirname_def upto_last_sep_def rstrip_sep_def sep_def Let_def)

lemmas walk_defs = walk_and_compute_sha1_from_directory_def gen_dir_def filtfn_def
  hash_dir_def path_defs compute_link_metadata_def compute_blob_metadata_def
  compute_tree_metadata_def compute_directory_git_sha1_def example_delegate_def
  blob_entry_def tree_entry_def ROOT_TREE_KEY_def Let_def

lemma os_walk_modified_b:
  "os_walk modified_fs ''/r/a/b'' = [(''/r/a/b'', [], [''file.txt''])]"
  by (simp add: os_walk_def modified_fs_def path_defs dirnames_of_def filenames_of_def)

lemma walk_modified_b:
  "walk_and_compute_sha1_from_directory example_delegate modified_fs ''/r/a/b'' (\<lambda>p. True) False False
     = (modified_fs, Inr [''/r/a/b'' \<mapsto> [blob_entry ''/r/a/b/file.txt'' ''c:foobar'']])"
  by (simp add: walk_defs os_walk_modified_b [unfolded modified_fs_def] modified_fs_def)

lemma commonpath_example: "commonpath [''/r/a/b''] = Inr ''/r/a/b''"
  by (simp add: commonpath_def path_defs Let_def)

lemma dirname_examples:
  "dirname ''/r/a/b'' = ''/r/a''" "dirname ''/r/a'' = ''/r''" "dirname ''/r'' = ''/''"
  by (simp_all add: dirname_def upto_last_sep_def rstrip_sep_def sep_def Let_def)

lemma recompute_example:
  "recompute_sha1_in_memory example_delegate ''/r'' ''/r/a/b''
     (example_index(''/r/a/b'' \<mapsto> [blob_entry ''/r/a/b/file.txt'' ''c:foobar'']))
   = Some (modified_index, None)"
  unfolding recompute_sha1_in_memory_def dirname_examples
  apply (subst recompute_loop.simps)
  apply (simp add: example_index_def dirname_examples compute_tree_metadata_def
      compute_directory_git_sha1_def example_delegate_def blob_entry_def tree_entry_def
      ROOT_TREE_KEY_def)
  apply (subst recompute_loop.simps)
  apply (simp add: dirname_examples compute_tree_metadata_def
      compute_directory_git_sha1_def example_delegate_def blob_entry_def tree_entry_def
      ROOT_TREE_KEY_def)
  apply (subst recompute_loop.simps)
  apply (simp add: modified_index_def basename_def sep_def blob_entry_def tree_entry_def
      ROOT_TREE_KEY_def compute_directory_git_sha1_def example_delegate_def)
  done

lemma path_tree_entry: "path (tree_entry p h) = p"
  by (simp add: tree_entry_def)

lemma example_index_keys:
  "example_index ROOT_TREE_KEY = Some [tree_entry ''/r'' ''c.txt=c:bar;a=b=file.txt=c:foo;;;'']"
  "example_index ''/r/a/b'' = Some [blob_entry ''/r/a/b/file.txt'' ''c:foo'']"
  by (simp_all add: example_index_def ROOT_TREE_KEY_def)

lemma scan_example: "scan_changes ''/r'' example_change ([], []) = Some ([''/r/a/b''], [])"
  by (simp add: example_change_def dirname_example_file Let_def)

lemma update_example:
  "update_checksums_from example_delegate modified_fs recursion_limit example_change example_index
     (\<lambda>p. True) False
   = Some (modified_fs, modified_index, Inr modified_index)"
  by (simp add: update_checksums_from_def example_index_keys path_tree_entry
      strip_trailing_sep_def sep_def scan_example commonpath_example walk_modified_b
      recompute_example)

lemma os_walk_modified:
  "os_walk modified_fs ''/r'' =
     [(''/r/a/b'', [], [''file.txt'']), (''/r/a'', [''b''], []), (''/r'', [''a''], [''c.txt''])]"
  by (simp add: os_walk_def modified_fs_def path_defs dirnames_of_def filenames_of_def)

lemma walk_orphan_modified:
  "walk_and_compute_sha1_from_directory example_delegate modified_fs ''/r'' example_filter True False
     = (modified_fs, Inr orphan_modified_index)"
  by (simp add: walk_defs os_walk_modified [unfolded modified_fs_def] modified_fs_def
      example_filter_def orphan_modified_index_def)

lemma walk_orphan_modified_b:
  "walk_and_compute_sha1_from_directory example_delegate modified_fs ''/r/a/b'' example_filter False False
     = (modified_fs, Inr [''/r/a/b'' \<mapsto> [blob_entry ''/r/a/b/file.txt'' ''c:foobar'']])"
  by (simp add: walk_defs os_walk_modified_b [unfolded modified_fs_def] modified_fs_def
      example_filter_def)

lemma orphan_index_keys:
  "orphan_index ROOT_TREE_KEY = Some [tree_entry ''/r'' ''c.txt=c:bar;'']"
  "orphan_index ''/r/a/b'' = Some [blob_entry ''/r/a/b/file.txt'' ''c:foo'']"
  by (simp_all add: orphan_index_def ROOT_TREE_KEY_def)

lemma recompute_orphan:
  "recompute_sha1_in_memory example_delegate ''/r'' ''/r/a/b''
     (orphan_index(''/r/a/b'' \<mapsto> [blob_entry ''/r/a/b/file.txt'' ''c:foobar'']))
   = Some (orphan_index(''/r/a/b'' \<mapsto> [blob_entry ''/r/a/b/file.txt'' ''c:foobar'']),
           Some (KeyError ''/r/a''))"
  unfolding recompute_sha1_in_memory_def dirname_examples
  apply (subst recompute_loop.simps)
  apply (simp add: orphan_index_def ROOT_TREE_KEY_def)
  done

section \<open>The first loop of the updater\<close>

lemma scan_changes_None_iff:
  "scan_changes root cs st = None \<longleftrightarrow> (\<exists>c\<in>set cs. dirname (cpath c) = root)"
  by (induction root cs st rule: scan_changes.induct) (auto simp: Let_def)

lemma scan_changes_sets:
  "scan_changes root cs (ps, rs) = Some (ps', rs') \<Longrightarrow>
     set ps' = set ps \<union> (\<lambda>c. dirname (cpath c)) ` set cs \<and>
     set rs' = set rs \<union> cpath ` {c \<in> set cs. action c = ''D''}"
proof (induction cs arbitrary: ps rs)
  case Nil
  then show ?case by simp
next
  case (Cons c cs)
  then show ?case
    by (auto simp: Let_def split: if_splits)
qed

lemma dirname_example_c: "dirname ''/r/c.txt'' = ''/r''"
  by (simp add: dirname_def upto_last_sep_def rstrip_sep_def sep_def Let_def)

text \<open>
  Claim C6. When some change descriptor's path has the root stored in the sentinel entry
  (trailing separators stripped) as its direct parent, \<open>update_checksums_from\<close> returns
  exactly what a full \<open>walk_and_compute_sha1_from_directory\<close> of that root returns, with
  the same filter and the same pruning flag, and leaves the caller's index untouched: no
  partial recomputation takes place.
\<close>

theorem root_adjacent_change_is_full_walk:
  assumes "objects ROOT_TREE_KEY = Some (root_entry # other)"
    and "root = strip_trailing_sep (path root_entry)"
    and "c \<in> set changed_paths"
    and "dirname (cpath c) = root"
  shows "update_checksums_from D fs recursion_limit changed_paths objects dir_ok_fn remove_empty_folder =
           Some (fst (walk_and_compute_sha1_from_directory D fs root dir_ok_fn True remove_empty_folder),
                 objects,
                 snd (walk_and_compute_sha1_from_directory D fs root dir_ok_fn True remove_empty_folder))"
proof -
  have "scan_changes root changed_paths ([], []) = None"
    using assms(3,4) by (auto simp: scan_changes_None_iff)
  then show ?thesis
    using assms(1,2)
    by (simp add: update_checksums_from_def full_walk_def Let_def split: prod.splits)
qed

theorem root_adjacent_change_is_full_walk_witness:
  "update_checksums_from example_delegate example_fs 1000
      [\<lparr>cpath = ''/r/c.txt'', action = ''M''\<rparr>] (sentinel_only ''/r'') (\<lambda>p. True) False =
   Some (fst (walk_and_compute_sha1_from_directory example_delegate example_fs ''/r''
                (\<lambda>p. True) True False),
         sentinel_only ''/r'',
         snd (walk_and_compute_sha1_from_directory example_delegate example_fs ''/r''
                (\<lambda>p. True) True False))"
  by (rule root_adjacent_change_is_full_walk
        [where c = "\<lparr>cpath = ''/r/c.txt'', action = ''M''\<rparr>"
           and root_entry = "tree_entry ''/r'' []" and other = "[]"])
     (simp_all add: sentinel_only_def tree_entry_def dirname_example_c sep_def strip_trailing_sep_def)

section \<open>The action field\<close>

lemma scan_changes_action:
  "scan_changes root
     (map (\<lambda>c. c\<lparr>action := (if action c = ''D'' then ''D'' else ''M'')\<rparr>) cs) st
   = scan_changes root cs st"
proof (induction cs arbitrary: st)
  case Nil
  then show ?case by simp
next
  case (Cons c cs)
  obtain ps rs where st: "st = (ps, rs)" by (cases st)
  show ?case
    unfolding st using Cons by (simp add: Let_def)
qed

text \<open>
  Claim C10. \<open>update_checksums_from\<close> never validates the action field. The only test
  on it is the comparison with \<^verbatim>\<open>'D'\<close>: replacing every action other than \<^verbatim>\<open>'D'\<close>
  (\<^verbatim>\<open>'A'\<close>, \<^verbatim>\<open>'M'\<close> or any other value) by \<^verbatim>\<open>'M'\<close> changes nothing in the
  result of the call, errors included; and a change which is not a deletion and is not
  root-adjacent adds its parent to the affected paths and nothing to the paths to remove.
\<close>

theorem action_other_than_D_is_modification:
  "update_checksums_from D fs recursion_limit
     (map (\<lambda>c. c\<lparr>action := (if action c = ''D'' then ''D'' else ''M'')\<rparr>) changed_paths)
     objects dir_ok_fn remove_empty_folder
   = update_checksums_from D fs recursion_limit changed_paths objects dir_ok_fn remove_empty_folder \<and>
   (action c \<noteq> ''D'' \<and> dirname (cpath c) \<noteq> root \<longrightarrow>
      scan_changes root (c # rest) (paths, paths_to_remove)
      = scan_changes root rest (List.insert (dirname (cpath c)) paths, paths_to_remove))"
proof
  show "update_checksums_from D fs recursion_limit
     (map (\<lambda>c. c\<lparr>action := (if action c = ''D'' then ''D'' else ''M'')\<rparr>) changed_paths)
     objects dir_ok_fn remove_empty_folder
   = update_checksums_from D fs recursion_limit changed_paths objects dir_ok_fn remove_empty_folder"
    unfolding update_checksums_from_def scan_changes_action by (rule refl)
next
  show "action c \<noteq> ''D'' \<and> dirname (cpath c) \<noteq> root \<longrightarrow>
      scan_changes root (c # rest) (paths, paths_to_remove)
      = scan_changes root rest (List.insert (dirname (cpath c)) paths, paths_to_remove)"
    by (simp add: Let_def)
qed

theorem action_other_than_D_is_modification_witness:
  "update_checksums_from example_delegate example_fs 1000
     (map (\<lambda>c. c\<lparr>action := (if action c = ''D'' then ''D'' else ''M'')\<rparr>)
        [\<lparr>cpath = ''/r/a/b/file.txt'', action = ''X''\<rparr>])
     example_index (\<lambda>p. True) False
   = update_checksums_from example_delegate example_fs 1000
       [\<lparr>cpath = ''/r/a/b/file.txt'', action = ''X''\<rparr>] example_index (\<lambda>p. True) False \<and>
   scan_changes ''/r'' [\<lparr>cpath = ''/r/a/b/file.txt'', action = ''X''\<rparr>] ([], [])
     = Some ([''/r/a/b''], [])"
  using action_other_than_D_is_modification
    [of example_delegate example_fs 1000 "[\<lparr>cpath = ''/r/a/b/file.txt'', action = ''X''\<rparr>]"
        example_index "\<lambda>p. True" False "\<lparr>cpath = ''/r/a/b/file.txt'', action = ''X''\<rparr>"
        "''/r''" "[]" "[]" "[]"]
  by (simp add: dirname_example_file)

section \<open>Errors of the common-prefix computation\<close>

lemma commonpath_mix:
  assumes "p \<in> set paths" "q \<in> set paths" "take 1 p = [sep]" "take 1 q \<noteq> [sep]"
  shows "commonpath paths = Inl ValueError_mix"
proof -
  have "paths \<noteq> []" using assms(1) by auto
  moreover have "True \<in> set (map (\<lambda>p. take 1 p = [sep]) paths)"
    using assms(1,3) by (auto simp: image_iff)
  moreover have "False \<in> set (map (\<lambda>p. take 1 p = [sep]) paths)"
    using assms(2,4) by (auto simp: image_iff)
  ultimately show ?thesis
    by (simp add: commonpath_def Let_def)
qed

text \<open>
  Claim C7. \<open>commonpath\<close> raises on the empty sequence and on every sequence in which
  an absolute and a relative path occur together. In the updater the common prefix is
  computed before anything is removed from or merged into the index: when the parents of
  the changes mix absolute and relative paths (and no change is root-adjacent), the call
  raises that error and the caller's index and the filesystem are as they were.
\<close>

theorem commonpath_fatal_input_errors:
  "commonpath [] = Inl ValueError_empty \<and>
   (p \<in> set paths \<and> q \<in> set paths \<and> take 1 p = [sep] \<and> take 1 q \<noteq> [sep]
      \<longrightarrow> commonpath paths = Inl ValueError_mix) \<and>
   (objects ROOT_TREE_KEY = Some (root_entry # other) \<and>
    (\<forall>c \<in> set changed_paths. dirname (cpath c) \<noteq> strip_trailing_sep (path root_entry)) \<and>
    c1 \<in> set changed_paths \<and> c2 \<in> set changed_paths \<and>
    take 1 (dirname (cpath c1)) = [sep] \<and> take 1 (dirname (cpath c2)) \<noteq> [sep]
      \<longrightarrow> update_checksums_from D fs recursion_limit changed_paths objects dir_ok_fn remove_empty_folder
            = Some (fs, objects, Inl ValueError_mix))"
proof (intro conjI impI)
  show "commonpath [] = Inl ValueError_empty"
    by (simp add: commonpath_def)
next
  assume "p \<in> set paths \<and> q \<in> set paths \<and> take 1 p = [sep] \<and> take 1 q \<noteq> [sep]"
  then show "commonpath paths = Inl ValueError_mix"
    using commonpath_mix by blast
next
  let ?root = "strip_trailing_sep (path root_entry)"
  assume a: "objects ROOT_TREE_KEY = Some (root_entry # other) \<and>
    (\<forall>c \<in> set changed_paths. dirname (cpath c) \<noteq> ?root) \<and>
    c1 \<in> set changed_paths \<and> c2 \<in> set changed_paths \<and>
    take 1 (dirname (cpath c1)) = [sep] \<and> take 1 (dirname (cpath c2)) \<noteq> [sep]"
  then have "scan_changes ?root changed_paths ([], []) \<noteq> None"
    by (simp only: scan_changes_None_iff) blast
  then obtain paths' rem where s: "scan_changes ?root changed_paths ([], []) = Some (paths', rem)"
    by auto
  have ps: "set paths' = (\<lambda>c. dirname (cpath c)) ` set changed_paths"
    using scan_changes_sets [OF s] by simp
  have m1: "dirname (cpath c1) \<in> set paths'" and m2: "dirname (cpath c2) \<in> set paths'"
    using a ps by auto
  have cp: "commonpath paths' = Inl ValueError_mix"
    using commonpath_mix [OF m1 m2] a by blast
  have ne: "paths' \<noteq> []" using m1 by auto
  show "update_checksums_from D fs recursion_limit changed_paths objects dir_ok_fn remove_empty_folder
            = Some (fs, objects, Inl ValueError_mix)"
    using a s cp ne by (simp add: update_checksums_from_def Let_def)
qed

theorem commonpath_fatal_input_errors_witness:
  "commonpath [] = Inl ValueError_empty \<and>
   commonpath [''/r/a/b'', ''x/y''] = Inl ValueError_mix \<and>
   update_checksums_from example_delegate example_fs 1000
     [\<lparr>cpath = ''/r/a/b/file.txt'', action = ''M''\<rparr>, \<lparr>cpath = ''x/y/g'', action = ''A''\<rparr>]
     example_index (\<lambda>p. True) False
     = Some (example_fs, example_index, Inl ValueError_mix)"
  using commonpath_fatal_input_errors
    [of "''/r/a/b''" "[''/r/a/b'', ''x/y'']" "''x/y''" example_index
        "tree_entry ''/r'' ''c.txt=c:bar;a=b=file.txt=c:foo;;;''" "[]"
        "[\<lparr>cpath = ''/r/a/b/file.txt'', action = ''M''\<rparr>, \<lparr>cpath = ''x/y/g'', action = ''A''\<rparr>]"
        "\<lparr>cpath = ''/r/a/b/file.txt'', action = ''M''\<rparr>" "\<lparr>cpath = ''x/y/g'', action = ''A''\<rparr>"
        example_delegate example_fs 1000 "\<lambda>p. True" False]
  by (simp add: dirname_example_file dirname_example_rel example_index_def tree_entry_def
      ROOT_TREE_KEY_def sep_def strip_trailing_sep_def)

section \<open>The reference to a removed path in its parent's list\<close>

text \<open>
  Claim C2 (evaluation of the code at the failing input). The index is the one the walker
  returns on the example; the removed path is \<^verbatim>\<open>/r/a/b/file.txt\<close>, whose parent
  \<^verbatim>\<open>/r/a/b\<close> satisfies the filter and is a key. After the removal (which returns,
  whatever positive number of nested calls the interpreter allows) the parent's list still
  holds the entry of the removed path.
\<close>

theorem removed_path_stays_in_parent_list:
  "fst (remove_paths_from_objects (Suc recursion_limit) (\<lambda>p. True) example_index
          [''/r/a/b/file.txt'']) ''/r/a/b''
     = Some [blob_entry ''/r/a/b/file.txt'' ''c:foo''] \<and>
   snd (remove_paths_from_objects (Suc recursion_limit) (\<lambda>p. True) example_index
          [''/r/a/b/file.txt'']) = None"
  by (simp add: remove_path_def dirname_example_file example_index_def entry_ne_path_def Let_def
      ROOT_TREE_KEY_def tree_entry_def blob_entry_def)

section \<open>The hashing loop of the walker\<close>

lemma mapE_Inr: "mapE f xs = Inr ys \<Longrightarrow> list_all2 (\<lambda>x y. f x = Inr y) xs ys"
  by (induction xs arbitrary: ys) (auto split: sum.splits)

lemma hash_dir_Inr:
  assumes "hash_dir D fs (dirpath, dirnames, filenames) (ls_hashes, all_links) = Inr (ls', al')"
  shows "\<exists>L F T.
           ls' = ls_hashes(dirpath \<mapsto> L @ F @ T) \<and>
           al' = all_links \<union> set (filter (islink fs) (map (join dirpath) (filenames @ dirnames))) \<and>
           list_all2 (\<lambda>x y. compute_link_metadata D fs x = Inr y)
             (filter (islink fs) (map (join dirpath) (filenames @ dirnames))) L \<and>
           list_all2 (\<lambda>x y. compute_blob_metadata D fs x = Inr y)
             (filter (\<lambda>p. p \<notin> al') (map (join dirpath) filenames)) F \<and>
           list_all2 (\<lambda>x y. compute_tree_metadata D x (ls_hashes(dirpath \<mapsto> L @ F)) = Inr y)
             (filter (\<lambda>p. p \<notin> al') (map (join dirpath) dirnames)) T"
proof -
  let ?links = "filter (islink fs) (map (join dirpath) (filenames @ dirnames))"
  let ?al = "all_links \<union> set ?links"
  let ?files = "filter (\<lambda>p. p \<notin> ?al) (map (join dirpath) filenames)"
  let ?subdirs = "filter (\<lambda>p. p \<notin> ?al) (map (join dirpath) dirnames)"
  have unf: "hash_dir D fs (dirpath, dirnames, filenames) (ls_hashes, all_links) =
     (case mapE (compute_link_metadata D fs) ?links of
        Inl e \<Rightarrow> Inl e
      | Inr L \<Rightarrow>
         (case mapE (compute_blob_metadata D fs) ?files of
            Inl e \<Rightarrow> Inl e
          | Inr F \<Rightarrow>
             (case mapE (\<lambda>x. compute_tree_metadata D x (ls_hashes(dirpath \<mapsto> L @ F))) ?subdirs of
                Inl e \<Rightarrow> Inl e
              | Inr T \<Rightarrow> Inr (ls_hashes(dirpath \<mapsto> (L @ F) @ T), ?al))))"
    unfolding hash_dir_def Let_def by (simp cong: sum.case_cong)
  from assms obtain L where L: "mapE (compute_link_metadata D fs) ?links = Inr L"
    unfolding unf by (cases "mapE (compute_link_metadata D fs) ?links") auto
  from assms L obtain F where F: "mapE (compute_blob_metadata D fs) ?files = Inr F"
    unfolding unf by (cases "mapE (compute_blob_metadata D fs) ?files") auto
  from assms L F obtain T where
    T: "mapE (\<lambda>x. compute_tree_metadata D x (ls_hashes(dirpath \<mapsto> L @ F))) ?subdirs = Inr T"
    unfolding unf
    by (cases "mapE (\<lambda>x. compute_tree_metadata D x (ls_hashes(dirpath \<mapsto> L @ F))) ?subdirs") auto
  from assms L F T have r: "ls' = ls_hashes(dirpath \<mapsto> L @ F @ T)" "al' = ?al"
    unfolding unf by simp_all
  show ?thesis
    using r mapE_Inr [OF L] mapE_Inr [OF F] mapE_Inr [OF T] by blast
qed

lemma hash_dirs_invariant:
  assumes "hash_dirs D fs ts st = Inr st'"
    and "P st"
    and "\<And>t s s'. t \<in> set ts \<Longrightarrow> P s \<Longrightarrow> hash_dir D fs t s = Inr s' \<Longrightarrow> P s'"
  shows "P st'"
  using assms
proof (induction ts arbitrary: st)
  case Nil
  then show ?case by simp
next
  case (Cons t ts)
  from Cons.prems(1) obtain s1 where s1: "hash_dir D fs t st = Inr s1"
    and r: "hash_dirs D fs ts s1 = Inr st'"
    by (auto split: sum.splits)
  have "P s1" using Cons.prems(3) [of t st s1] Cons.prems(2) s1 by simp
  moreover have "\<And>t' s s'. t' \<in> set ts \<Longrightarrow> P s \<Longrightarrow> hash_dir D fs t' s = Inr s' \<Longrightarrow> P s'"
    using Cons.prems(3) by (meson list.set_intros(2))
  ultimately show ?case
    using Cons.IH [OF r] by blast
qed

lemma link_metadata_all:
  "list_all2 (\<lambda>x y. compute_link_metadata D fs x = Inr y) xs L \<Longrightarrow>
     map path L = xs \<and> (\<forall>e \<in> set L. perms e = P_LINK \<and> type e = T_BLOB)"
  by (induction xs L rule: list_all2_induct)
     (auto simp: compute_link_metadata_def split: option.splits node.splits)

lemma blob_metadata_all:
  "list_all2 (\<lambda>x y. compute_blob_metadata D fs x = Inr y) xs F \<Longrightarrow>
     map path F = xs \<and> (\<forall>e \<in> set F. (perms e = P_BLOB \<or> perms e = P_EXEC) \<and> type e = T_BLOB)"
  by (induction xs F rule: list_all2_induct)
     (auto simp: compute_blob_metadata_def split: option.splits node.splits)

lemma tree_metadata_all:
  "list_all2 (\<lambda>x y. compute_tree_metadata D x ls = Inr y) xs T \<Longrightarrow>
     map path T = xs \<and> (\<forall>e \<in> set T. perms e = P_TREE \<and> type e = T_TREE \<and> path e \<in> dom ls)"
  by (induction xs T rule: list_all2_induct)
     (auto simp: compute_tree_metadata_def compute_directory_git_sha1_def
           split: option.splits sum.splits)

lemma walk_inv_step:
  assumes t: "t \<in> set ts" and inv: "walk_inv fs ts s" and h: "hash_dir D fs t s = Inr s'"
  shows "walk_inv fs ts s'"
proof -
  obtain dp dns fns where t_eq: "t = (dp, dns, fns)" by (cases t)
  obtain ls al where s_eq: "s = (ls, al)" by (cases s)
  obtain ls' al' where s'_eq: "s' = (ls', al')" by (cases s')
  let ?links = "filter (islink fs) (map (join dp) (fns @ dns))"
  from hash_dir_Inr [OF h [unfolded t_eq s_eq s'_eq]] obtain L F T where
    ls': "ls' = ls(dp \<mapsto> L @ F @ T)" and al': "al' = al \<union> set ?links"
    and L: "list_all2 (\<lambda>x y. compute_link_metadata D fs x = Inr y) ?links L"
    and F: "list_all2 (\<lambda>x y. compute_blob_metadata D fs x = Inr y)
              (filter (\<lambda>p. p \<notin> al') (map (join dp) fns)) F"
    and T: "list_all2 (\<lambda>x y. compute_tree_metadata D x (ls(dp \<mapsto> L @ F)) = Inr y)
              (filter (\<lambda>p. p \<notin> al') (map (join dp) dns)) T"
    by blast
  have al_sub: "al \<subseteq> Collect (islink fs)"
    using inv by (simp add: walk_inv_def s_eq)
  have al'_sub: "al' \<subseteq> Collect (islink fs)"
    using al_sub al' by auto
  have ff: "filter (\<lambda>p. p \<notin> al') (map (join dp) fns)
            = filter (\<lambda>q. \<not> islink fs q) (map (join dp) fns)"
    using al'_sub al' by (intro filter_cong) auto
  have fd: "filter (\<lambda>p. p \<notin> al') (map (join dp) dns)
            = filter (\<lambda>q. \<not> islink fs q) (map (join dp) dns)"
    using al'_sub al' by (intro filter_cong) auto
  have new: "listed_in_order fs dp dns fns (L @ F @ T)"
    unfolding listed_in_order_def
    using link_metadata_all [OF L] blob_metadata_all [OF F] tree_metadata_all [OF T] ff fd
    by (intro exI [of _ L] exI [of _ F] exI [of _ T]) simp
  have "\<exists>dns fns. (p, dns, fns) \<in> set ts \<and> listed_in_order fs p dns fns es"
    if "ls' p = Some es" for p es
  proof (cases "p = dp")
    case True
    then have "es = L @ F @ T" using that ls' by simp
    then show ?thesis using new t t_eq True by blast
  next
    case False
    then have "ls p = Some es" using that ls' by simp
    then show ?thesis using inv by (simp add: walk_inv_def s_eq)
  qed
  then show ?thesis
    using al'_sub by (simp add: walk_inv_def s'_eq)
qed

lemma walk_Inr:
  assumes "walk_and_compute_sha1_from_directory D fs rootdir dir_ok_fn with_root_tree
             remove_empty_folder = (fs', Inr idx)"
  shows "\<exists>ls al.
           hash_dirs D fs' (gen_dir dir_ok_fn (os_walk fs' (strip_trailing_sep rootdir)))
             (Map.empty, {}) = Inr (ls, al) \<and>
           (if with_root_tree
            then \<exists>h. compute_directory_git_sha1 D (strip_trailing_sep rootdir) ls = Inr h \<and>
                   idx = ls(ROOT_TREE_KEY \<mapsto>
                     [\<lparr>name = basename (strip_trailing_sep rootdir), perms = P_TREE,
                       type = T_TREE, sha1_git = h, path = strip_trailing_sep rootdir,
                       others = [], data = None, data_length = None\<rparr>])
            else idx = ls)"
  using assms
  unfolding walk_and_compute_sha1_from_directory_def Let_def
  by (auto split: prod.splits option.splits sum.splits if_splits)

lemma walk_listed:
  assumes w: "walk_and_compute_sha1_from_directory D fs rootdir dir_ok_fn with_root_tree
             remove_empty_folder = (fs', Inr idx)"
    and p: "p \<noteq> ROOT_TREE_KEY" and es: "idx p = Some es"
  shows "\<exists>dns fns.
           (p, dns, fns) \<in> set (gen_dir dir_ok_fn (os_walk fs' (strip_trailing_sep rootdir))) \<and>
           listed_in_order fs' p dns fns es"
proof -
  let ?ts = "gen_dir dir_ok_fn (os_walk fs' (strip_trailing_sep rootdir))"
  from walk_Inr [OF w] obtain ls al where
    h: "hash_dirs D fs' ?ts (Map.empty, {}) = Inr (ls, al)"
    and i: "idx = ls \<or> (\<exists>v. idx = ls(ROOT_TREE_KEY \<mapsto> v))"
    by (auto split: if_splits)
  have "walk_inv fs' ?ts (ls, al)"
    by (rule hash_dirs_invariant [OF h]) (simp add: walk_inv_def, erule (2) walk_inv_step)
  moreover have "ls p = Some es" using i p es by auto
  ultimately show ?thesis by (simp add: walk_inv_def)
qed

lemma gen_dir_mem:
  "(p, dns, fns) \<in> set (gen_dir dir_ok_fn walked) \<Longrightarrow>
     dir_ok_fn p \<and> (\<forall>d \<in> set dns. dir_ok_fn (join p d))"
  by (auto simp: gen_dir_def filtfn_def)

lemma closure_step:
  assumes inv: "closure (fst s)" and h: "hash_dir D fs t s = Inr s'"
  shows "closure (fst s')"
proof -
  obtain dp dns fns where t_eq: "t = (dp, dns, fns)" by (cases t)
  obtain ls al where s_eq: "s = (ls, al)" by (cases s)
  obtain ls' al' where s'_eq: "s' = (ls', al')" by (cases s')
  from hash_dir_Inr [OF h [unfolded t_eq s_eq s'_eq]] obtain L F T xs ys zs where
    ls': "ls' = ls(dp \<mapsto> L @ F @ T)"
    and L: "list_all2 (\<lambda>x y. compute_link_metadata D fs x = Inr y) xs L"
    and F: "list_all2 (\<lambda>x y. compute_blob_metadata D fs x = Inr y) ys F"
    and T: "list_all2 (\<lambda>x y. compute_tree_metadata D x (ls(dp \<mapsto> L @ F)) = Inr y) zs T"
    by blast
  have "path e \<in> dom ls'" if "ls' p = Some es" "e \<in> set es" "type e = T_TREE" for p es e
  proof (cases "p = dp")
    case True
    then have "es = L @ F @ T" using that ls' by simp
    then have "e \<in> set T"
      using that link_metadata_all [OF L] blob_metadata_all [OF F] by auto
    then have "path e \<in> dom (ls(dp \<mapsto> L @ F))"
      using tree_metadata_all [OF T] by blast
    then show ?thesis using ls' by auto
  next
    case False
    then have "ls p = Some es" using that ls' by simp
    then have "path e \<in> dom ls" using inv that by (auto simp: closure_def s_eq)
    then show ?thesis using ls' by auto
  qed
  then show ?thesis by (auto simp: closure_def s'_eq)
qed

lemma walk_closure:
  assumes w: "walk_and_compute_sha1_from_directory D fs rootdir dir_ok_fn with_root_tree
             remove_empty_folder = (fs', Inr idx)"
  shows "closure idx"
proof -
  let ?ts = "gen_dir dir_ok_fn (os_walk fs' (strip_trailing_sep rootdir))"
  from walk_Inr [OF w] obtain ls al where
    h: "hash_dirs D fs' ?ts (Map.empty, {}) = Inr (ls, al)"
    and i: "if with_root_tree
            then \<exists>h. compute_directory_git_sha1 D (strip_trailing_sep rootdir) ls = Inr h \<and>
                   idx = ls(ROOT_TREE_KEY \<mapsto>
                     [\<lparr>name = basename (strip_trailing_sep rootdir), perms = P_TREE,
                       type = T_TREE, sha1_git = h, path = strip_trailing_sep rootdir,
                       others = [], data = None, data_length = None\<rparr>])
            else idx = ls"
    by blast
  have "closure (fst (ls, al))"
    by (rule hash_dirs_invariant [OF h, where P = "\<lambda>s. closure (fst s)"])
       (simp add: closure_def, erule closure_step)
  then have c: "closure ls" by simp
  show ?thesis
  proof (cases with_root_tree)
    case False
    then show ?thesis using i c by simp
  next
    case True
    then obtain h where k: "compute_directory_git_sha1 D (strip_trailing_sep rootdir) ls = Inr h"
      and idx: "idx = ls(ROOT_TREE_KEY \<mapsto>
                     [\<lparr>name = basename (strip_trailing_sep rootdir), perms = P_TREE,
                       type = T_TREE, sha1_git = h, path = strip_trailing_sep rootdir,
                       others = [], data = None, data_length = None\<rparr>])"
      using i by auto
    have "strip_trailing_sep rootdir \<in> dom ls"
      using k by (auto simp: compute_directory_git_sha1_def split: option.splits)
    then show ?thesis
      using c unfolding idx closure_def
      by (auto split: if_splits)
  qed
qed

text \<open>
  Claim C9. In an index returned by the walker, the list stored for a directory key other
  than the sentinel follows the listing of that directory: all symlink entries first (in
  listing order), then all file entries that are no symlinks, then all tree entries of the
  subdirectories.
\<close>

theorem walker_entries_ordered:
  assumes "walk_and_compute_sha1_from_directory D fs rootdir dir_ok_fn with_root_tree
             remove_empty_folder = (fs', Inr idx)"
    and "p \<noteq> ROOT_TREE_KEY" and "idx p = Some es"
  shows "\<exists>dirnames filenames.
           (p, dirnames, filenames)
              \<in> set (gen_dir dir_ok_fn (os_walk fs' (strip_trailing_sep rootdir))) \<and>
           listed_in_order fs' p dirnames filenames es"
  using assms by (rule walk_listed)

theorem walker_entries_ordered_witness:
  "\<exists>dirnames filenames.
      (''/r'', dirnames, filenames)
         \<in> set (gen_dir (\<lambda>p. True) (os_walk example_fs (strip_trailing_sep ''/r''))) \<and>
      listed_in_order example_fs ''/r'' dirnames filenames
        [blob_entry ''/r/c.txt'' ''c:bar'', tree_entry ''/r/a'' ''b=file.txt=c:foo;;'']"
  by (rule walker_entries_ordered [OF walk_example])
     (simp_all add: ROOT_TREE_KEY_def example_index_def)

lemma hash_dirs_dom:
  assumes "hash_dirs D fs ts (ls, al) = Inr (ls', al')"
  shows "dom ls \<subseteq> dom ls' \<and> (\<forall>t \<in> set ts. fst t \<in> dom ls')"
  using assms
proof (induction ts arbitrary: ls al)
  case Nil
  then show ?case by simp
next
  case (Cons t ts)
  obtain dp dns fns where t_eq: "t = (dp, dns, fns)" by (cases t)
  from Cons.prems obtain s1 where s1: "hash_dir D fs t (ls, al) = Inr s1"
    and r: "hash_dirs D fs ts s1 = Inr (ls', al')"
    by (auto split: sum.splits)
  obtain ls1 al1 where s1_eq: "s1 = (ls1, al1)" by (cases s1)
  from hash_dir_Inr [OF s1 [unfolded t_eq s1_eq]] obtain v where "ls1 = ls(dp \<mapsto> v)"
    by blast
  then have d: "dom ls \<subseteq> dom ls1" "dp \<in> dom ls1" by auto
  from Cons.IH [OF r [unfolded s1_eq]] have
    i: "dom ls1 \<subseteq> dom ls'" "\<forall>t \<in> set ts. fst t \<in> dom ls'" by simp_all
  show ?case
    using d i t_eq by auto
qed

lemma walk_children_descends:
  "(n, c) \<in> set es \<Longrightarrow> set (walk_node (join tp n) c) \<subseteq> set (walk_children tp es)"
  by (induction es) auto

lemma walk_keys:
  assumes w: "walk_and_compute_sha1_from_directory D fs rootdir dir_ok_fn with_root_tree
             remove_empty_folder = (fs', Inr idx)"
    and p: "p \<noteq> ROOT_TREE_KEY"
  shows "idx p \<noteq> None \<longleftrightarrow>
           dir_ok_fn p \<and>
           (\<exists>dirnames filenames.
              (p, dirnames, filenames) \<in> set (os_walk fs' (strip_trailing_sep rootdir)))"
proof
  assume "idx p \<noteq> None"
  then obtain es where "idx p = Some es" by auto
  from walk_listed [OF w p this] obtain dns fns where
    "(p, dns, fns) \<in> set (gen_dir dir_ok_fn (os_walk fs' (strip_trailing_sep rootdir)))"
    by blast
  then show "dir_ok_fn p \<and>
           (\<exists>dirnames filenames.
              (p, dirnames, filenames) \<in> set (os_walk fs' (strip_trailing_sep rootdir)))"
    by (auto simp: gen_dir_def)
next
  assume a: "dir_ok_fn p \<and>
           (\<exists>dirnames filenames.
              (p, dirnames, filenames) \<in> set (os_walk fs' (strip_trailing_sep rootdir)))"
  let ?ts = "gen_dir dir_ok_fn (os_walk fs' (strip_trailing_sep rootdir))"
  from a obtain dns fns where
    "(p, dns, fns) \<in> set (os_walk fs' (strip_trailing_sep rootdir))" by blast
  then have m: "(p, filtfn dir_ok_fn p dns, fns) \<in> set ?ts"
    using a by (force simp: gen_dir_def)
  from walk_Inr [OF w] obtain ls al where
    h: "hash_dirs D fs' ?ts (Map.empty, {}) = Inr (ls, al)"
    and i: "idx = ls \<or> (\<exists>v. idx = ls(ROOT_TREE_KEY \<mapsto> v))"
    by (auto split: if_splits)
  from hash_dirs_dom [OF h] m have "p \<in> dom ls" by force
  then show "idx p \<noteq> None" using i p by auto
qed

text \<open>
  Claim C3, amended. A directory for which the predicate returns false is absent from the
  index returned by the walker: its path is no key (other than the sentinel key) and no
  tree entry of a directory's list refers to it. The traversal itself does not look at the
  predicate: it descends into every subdirectory of a directory it visits, and a path
  other than the sentinel key is a key of the index exactly when the traversal visits it
  and the predicate holds of that path itself. So a descendant of a rejected directory is
  absent when its own path fails the predicate, and is walked and indexed when its own path
  satisfies it.
\<close>

theorem walker_keys_are_the_accepted_directories:
  assumes w: "walk_and_compute_sha1_from_directory D fs rootdir dir_ok_fn with_root_tree
             remove_empty_folder = (fs', Inr idx)"
  shows "(\<forall>p. p \<noteq> ROOT_TREE_KEY \<longrightarrow>
            (idx p \<noteq> None \<longleftrightarrow>
               dir_ok_fn p \<and>
               (\<exists>dirnames filenames.
                  (p, dirnames, filenames) \<in> set (os_walk fs' (strip_trailing_sep rootdir))))) \<and>
         (\<forall>k es e. k \<noteq> ROOT_TREE_KEY \<and> idx k = Some es \<and> e \<in> set es \<and> type e = T_TREE
             \<longrightarrow> dir_ok_fn (path e)) \<and>
         (\<forall>tp es n c. (n, c) \<in> set es
             \<longrightarrow> set (walk_node (join tp n) c) \<subseteq> set (walk_node tp (Dir es)))"
proof (intro conjI allI impI)
  fix p
  assume "p \<noteq> ROOT_TREE_KEY"
  then show "idx p \<noteq> None \<longleftrightarrow>
               dir_ok_fn p \<and>
               (\<exists>dirnames filenames.
                  (p, dirnames, filenames) \<in> set (os_walk fs' (strip_trailing_sep rootdir)))"
    by (rule walk_keys [OF w])
next
  fix k es e
  assume a: "k \<noteq> ROOT_TREE_KEY \<and> idx k = Some es \<and> e \<in> set es \<and> type e = T_TREE"
  then obtain dns fns where m: "(k, dns, fns) \<in> set (gen_dir dir_ok_fn (os_walk fs' (strip_trailing_sep rootdir)))"
    and l: "listed_in_order fs' k dns fns es"
    using walk_listed [OF w] by blast
  from l obtain L F T where es: "es = L @ F @ T"
    and L: "\<forall>e \<in> set L. perms e = P_LINK \<and> type e = T_BLOB"
    and F: "\<forall>e \<in> set F. (perms e = P_BLOB \<or> perms e = P_EXEC) \<and> type e = T_BLOB"
    and T: "map path T = filter (\<lambda>q. \<not> islink fs' q) (map (join k) dns)"
    unfolding listed_in_order_def by blast
  have "e \<in> set T" using a es L F by auto
  then have "path e \<in> set (map path T)" by simp
  then have "path e \<in> join k ` set dns" unfolding T by auto
  then show "dir_ok_fn (path e)" using gen_dir_mem [OF m] by auto
next
  fix tp :: path and es :: "(string \<times> node) list" and n c
  assume "(n, c) \<in> set es"
  then show "set (walk_node (join tp n) c) \<subseteq> set (walk_node tp (Dir es))"
    using walk_children_descends [of n c es tp] by auto
qed

text \<open>
  The witness: with the filter that rejects \<^verbatim>\<open>/r/a\<close> only, \<^verbatim>\<open>/r/a\<close> is no key
  and its subdirectory \<^verbatim>\<open>/r/a/b\<close> is one; with the filter that rejects
  \<^verbatim>\<open>/r/a/b\<close> only, the tree entry that the list of \<^verbatim>\<open>/r\<close> holds refers to an
  accepted path; and the traversal of \<^verbatim>\<open>/r/a\<close> contains that of \<^verbatim>\<open>/r/a/b\<close>.
\<close>

theorem walker_keys_are_the_accepted_directories_witness:
  "orphan_index ''/r/a'' = None \<and> orphan_index ''/r/a/b'' \<noteq> None \<and>
   leaf_filter (path (tree_entry ''/r/a'' [])) \<and>
   set (walk_node (join ''/r/a'' ''b'') (Dir [(''file.txt'', File ''foo'' False)]))
     \<subseteq> set (walk_node ''/r/a'' (Dir [(''b'', Dir [(''file.txt'', File ''foo'' False)])]))"
proof -
  note t = walker_keys_are_the_accepted_directories [OF walk_orphan]
  have s: "strip_trailing_sep ''/r'' = ''/r''"
    by (simp add: strip_trailing_sep_def sep_def)
  from t have k: "\<And>p. p \<noteq> ROOT_TREE_KEY \<Longrightarrow>
       orphan_index p \<noteq> None \<longleftrightarrow>
         example_filter p \<and>
         (\<exists>dirnames filenames. (p, dirnames, filenames) \<in> set (os_walk example_fs ''/r''))"
    unfolding s by blast
  have a: "orphan_index ''/r/a'' = None"
    using k [of "''/r/a''"] by (simp add: ROOT_TREE_KEY_def example_filter_def)
  have b: "orphan_index ''/r/a/b'' \<noteq> None"
    using k [of "''/r/a/b''"] by (simp add: ROOT_TREE_KEY_def example_filter_def os_walk_example)
  from walker_keys_are_the_accepted_directories [OF walk_leaf]
  have "\<And>k es e. k \<noteq> ROOT_TREE_KEY \<Longrightarrow> leaf_index k = Some es \<Longrightarrow> e \<in> set es \<Longrightarrow>
          type e = T_TREE \<Longrightarrow> leaf_filter (path e)"
    by blast
  from this [of "''/r''" "[blob_entry ''/r/c.txt'' ''c:bar'', tree_entry ''/r/a'' []]"
               "tree_entry ''/r/a'' []"]
  have c: "leaf_filter (path (tree_entry ''/r/a'' []))"
    by (simp add: ROOT_TREE_KEY_def leaf_index_def tree_entry_def)
  from t have "set (walk_node (join ''/r/a'' ''b'') (Dir [(''file.txt'', File ''foo'' False)]))
     \<subseteq> set (walk_node ''/r/a'' (Dir [(''b'', Dir [(''file.txt'', File ''foo'' False)])]))"
    by (metis list.set_intros(1))
  with a b c show ?thesis by blast
qed

text \<open>
  Claim C3 as stated fails: with the filter that rejects only \<^verbatim>\<open>/r/a\<close>, the
  descendant \<^verbatim>\<open>/r/a/b\<close> of the rejected directory is a key of the returned index.
\<close>

theorem descendant_of_rejected_directory_indexed:
  "walk_and_compute_sha1_from_directory example_delegate example_fs ''/r'' example_filter True False
     = (example_fs, Inr orphan_index) \<and>
   \<not> example_filter ''/r/a'' \<and> example_filter ''/r/a/b'' \<and>
   orphan_index ''/r/a/b'' = Some [blob_entry ''/r/a/b/file.txt'' ''c:foo'']"
  by (simp add: walk_orphan example_filter_def orphan_index_def ROOT_TREE_KEY_def)

section \<open>Termination of the cascading removal\<close>

















section \<open>The closure invariant\<close>

lemma sub_index_refl: "sub_index idx idx"
  by (simp add: sub_index_def)

lemma sub_index_trans: "sub_index a b \<Longrightarrow> sub_index b c \<Longrightarrow> sub_index a c"
  unfolding sub_index_def by (meson subset_trans)

lemma remove_path_sub_index: "sub_index (fst (remove_path f p (objs, dtc))) objs"
  by (auto simp: sub_index_def remove_path_def Let_def split: option.splits if_splits)

lemma fold_remove_path_sub_index: "sub_index (fst (fold (remove_path f) ps (objs, dtc))) objs"
proof (induction ps arbitrary: objs dtc)
  case Nil
  then show ?case by (simp add: sub_index_refl)
next
  case (Cons p ps)
  obtain o1 d1 where s: "remove_path f p (objs, dtc) = (o1, d1)"
    by (cases "remove_path f p (objs, dtc)")
  have "sub_index o1 objs" using remove_path_sub_index [of f p objs dtc] s by simp
  moreover have "sub_index (fst (fold (remove_path f) ps (o1, d1))) o1" by (rule Cons.IH)
  ultimately show ?case using s sub_index_trans by auto
qed

lemma remove_sub_index: "sub_index (fst (remove_paths_from_objects l f objs ps)) objs"
proof (induction l arbitrary: objs ps)
  case 0
  then show ?case by (simp add: sub_index_refl)
next
  case (Suc l)
  obtain o1 d1 where s: "fold (remove_path f) ps (objs, []) = (o1, d1)"
    by (cases "fold (remove_path f) ps (objs, [])")
  have a: "sub_index o1 objs" using fold_remove_path_sub_index [of f ps objs "[]"] s by simp
  show ?case
  proof (cases "d1 = []")
    case True
    then show ?thesis using s a by simp
  next
    case False
    then have "remove_paths_from_objects (Suc l) f objs ps = remove_paths_from_objects l f o1 d1"
      using s by simp
    then show ?thesis using Suc.IH [of o1 d1] a sub_index_trans by metis
  qed
qed

lemma sub_index_closure_except:
  assumes "sub_index r objs" and "closure_except R objs"
  shows "closure_except (R \<union> dom objs) r"
  using assms unfolding sub_index_def closure_except_def
  by (metis UnCI subsetD)

lemma recompute_entries_closure:
  assumes "closure_except S objects"
    and "\<forall>e \<in> set ls. type e = T_TREE \<longrightarrow> path e \<in> dom objects \<or> path e \<in> S"
  shows "closure_except S (fst (recompute_entries D rootdir files objects ls)) \<and>
         dom objects \<subseteq> dom (fst (recompute_entries D rootdir files objects ls))"
  using assms
proof (induction files arbitrary: objects ls)
  case Nil
  then show ?case by simp
next
  case (Cons hashfile files)
  show ?case
  proof (cases "type hashfile = T_TREE")
    case True
    show ?thesis
    proof (cases "compute_tree_metadata D (path hashfile) objects")
      case (Inl e)
      then show ?thesis using True Cons.prems by simp
    next
      case (Inr th)
      then have th: "type th = T_TREE" "path th \<in> dom objects"
        by (auto simp: compute_tree_metadata_def compute_directory_git_sha1_def
                 split: sum.splits option.splits)
      let ?o = "objects(rootdir \<mapsto> ls @ [th])"
      have c: "closure_except S ?o"
        using Cons.prems th unfolding closure_except_def
        by (auto split: if_splits)
      have l: "\<forall>e \<in> set (ls @ [th]). type e = T_TREE \<longrightarrow> path e \<in> dom ?o \<or> path e \<in> S"
        using Cons.prems(2) th by auto
      have r: "recompute_entries D rootdir (hashfile # files) objects ls
                 = recompute_entries D rootdir files ?o (ls @ [th])"
        using True Inr by simp
      have "dom objects \<subseteq> dom ?o" by auto
      then show ?thesis
        unfolding r using Cons.IH [OF c l] by blast
    qed
  next
    case False
    let ?o = "objects(rootdir \<mapsto> ls @ [hashfile])"
    have c: "closure_except S ?o"
      using Cons.prems False unfolding closure_except_def
      by (auto split: if_splits)
    have l: "\<forall>e \<in> set (ls @ [hashfile]). type e = T_TREE \<longrightarrow> path e \<in> dom ?o \<or> path e \<in> S"
      using Cons.prems(2) False by auto
    have r: "recompute_entries D rootdir (hashfile # files) objects ls
               = recompute_entries D rootdir files ?o (ls @ [hashfile])"
      using False by simp
    have "dom objects \<subseteq> dom ?o" by auto
    then show ?thesis
      unfolding r using Cons.IH [OF c l] by blast
  qed
qed

lemma recompute_loop_closure:
  assumes "recompute_loop D upper_root rootdir objects = Some res"
  shows "closure_except S objects \<longrightarrow> closure_except S (fst res)"
proof (rule recompute_loop.raw_induct
    [where P = "\<lambda>D upper_root rootdir objects res.
                  closure_except S objects \<longrightarrow> closure_except S (fst res)", OF _ assms])
  fix loop :: "delegate \<Rightarrow> path \<Rightarrow> path \<Rightarrow> index \<Rightarrow> (index \<times> error option) option"
    and D upper_root rootdir objects res
  assume ih: "\<And>D upper_root rootdir objects y. loop D upper_root rootdir objects = Some y \<Longrightarrow>
                closure_except S objects \<longrightarrow> closure_except S (fst y)"
    and st: "(if rootdir \<noteq> upper_root
      then case objects rootdir of
           None \<Rightarrow> Some (objects, Some (KeyError rootdir))
           | Some files \<Rightarrow>
               case recompute_entries D rootdir files objects [] of
               (objects', None) \<Rightarrow> loop D upper_root (dirname rootdir) objects'
               | (objects', Some e) \<Rightarrow> Some (objects', Some e)
      else Some (objects, None)) = Some res"
  show "closure_except S objects \<longrightarrow> closure_except S (fst res)"
  proof
    assume c: "closure_except S objects"
    show "closure_except S (fst res)"
    proof (cases "rootdir \<noteq> upper_root")
      case False
      then show ?thesis using st c by auto
    next
      case True
      show ?thesis
      proof (cases "objects rootdir")
        case None
        then show ?thesis using st c True by auto
      next
        case (Some files)
        obtain o1 e1 where r: "recompute_entries D rootdir files objects [] = (o1, e1)"
          by (cases "recompute_entries D rootdir files objects []")
        have c1: "closure_except S o1"
          using recompute_entries_closure [OF c, of "[]" D rootdir files] r by simp
        show ?thesis
        proof (cases e1)
          case None
          then have "loop D upper_root (dirname rootdir) o1 = Some res"
            using st True Some r by simp
          then show ?thesis using ih c1 by blast
        next
          case (Some e)
          then show ?thesis using st True \<open>objects rootdir = Some files\<close> r c1 by auto
        qed
      qed
    qed
  qed
qed

lemma recompute_sha1_in_memory_closure:
  assumes "recompute_sha1_in_memory D root deeper objects = Some (objects', err)"
    and "closure_except S objects"
  shows "closure_except S objects'"
proof -
  from assms(1) obtain o1 e1 where l: "recompute_loop D (dirname root) (dirname deeper) objects = Some (o1, e1)"
    by (auto simp: recompute_sha1_in_memory_def split: option.splits)
  have c1: "closure_except S o1"
    using recompute_loop_closure [OF l] assms(2) by simp
  show ?thesis
  proof (cases "objects' = o1")
    case True
    then show ?thesis using c1 by simp
  next
    case False
    then obtain h e es where k: "o1 ROOT_TREE_KEY = Some (e # es)"
      and o: "objects' = o1(ROOT_TREE_KEY \<mapsto> e\<lparr>sha1_git := h\<rparr> # es)"
      using assms(1) l
      by (auto simp: recompute_sha1_in_memory_def split: option.splits sum.splits list.splits)
    have d: "dom o1 \<subseteq> dom objects'" using o by auto
    have "path x \<in> dom objects' \<or> path x \<in> S"
      if a1: "objects' p = Some xs" and a2: "x \<in> set xs" and a3: "type x = T_TREE" for p xs x
    proof (cases "p = ROOT_TREE_KEY")
      case True
      then have "xs = e\<lparr>sha1_git := h\<rparr> # es" using a1 o by simp
      then have "\<exists>x0. x0 \<in> set (e # es) \<and> path x0 = path x \<and> type x0 = type x"
        using a2 by auto
      then have "path x \<in> dom o1 \<or> path x \<in> S"
        using c1 k a3 unfolding closure_except_def by metis
      then show ?thesis using d by auto
    next
      case False
      then have "o1 p = Some xs" using a1 o by simp
      then have "path x \<in> dom o1 \<or> path x \<in> S"
        using c1 a2 a3 unfolding closure_except_def by blast
      then show ?thesis using d by auto
    qed
    then show ?thesis
      unfolding closure_except_def by blast
  qed
qed

lemma update_Inr_cases:
  assumes "update_checksums_from D fs lim cs objects f ref = Some (fs', store, Inr idx')"
  shows "(\<exists>root. walk_and_compute_sha1_from_directory D fs root f True ref = (fs', Inr idx'))
         \<or> idx' = objects
         \<or> (\<exists>root rootdir objs1 hashes.
              sub_index objs1 objects \<and>
              walk_and_compute_sha1_from_directory D fs rootdir f False ref = (fs', Inr hashes) \<and>
              recompute_sha1_in_memory D root rootdir (objs1 ++ hashes) = Some (idx', None))"
proof -
  from assms obtain root_entry other where k: "objects ROOT_TREE_KEY = Some (root_entry # other)"
    by (auto simp: update_checksums_from_def split: option.splits list.splits)
  let ?root = "strip_trailing_sep (path root_entry)"
  show ?thesis
  proof (cases "scan_changes ?root cs ([], [])")
    case None
    then have "full_walk D fs ?root f ref objects = (fs', store, Inr idx')"
      using assms k by (simp add: update_checksums_from_def Let_def)
    then have "walk_and_compute_sha1_from_directory D fs ?root f True ref = (fs', Inr idx')"
      by (auto simp: full_walk_def split: prod.splits)
    then show ?thesis by blast
  next
    case (Some pr)
    obtain paths ptr where pr: "pr = (paths, ptr)" by (cases pr)
    show ?thesis
    proof (cases "paths = []")
      case True
      then have "idx' = objects"
        using assms k Some pr by (auto simp: update_checksums_from_def Let_def)
      then show ?thesis by blast
    next
      case False
      let ?rm = "if ptr \<noteq> [] then remove_paths_from_objects lim f objects ptr
                 else (objects, None)"
      have unf: "update_checksums_from D fs lim cs objects f ref =
        (case commonpath paths of
           Inl e \<Rightarrow> Some (fs, objects, Inl e)
         | Inr rootdir \<Rightarrow>
            (case ?rm of
               (objects, Some e) \<Rightarrow> Some (fs, objects, Inl e)
             | (objects, None) \<Rightarrow>
                 if (case objects rootdir of None \<Rightarrow> True | Some l \<Rightarrow> l = [])
                 then Some (full_walk D fs ?root f ref objects)
                 else
                   (case walk_and_compute_sha1_from_directory D fs rootdir f False ref of
                      (fs', Inl e) \<Rightarrow> Some (fs', objects, Inl e)
                    | (fs', Inr hashes) \<Rightarrow>
                        (case recompute_sha1_in_memory D ?root rootdir (objects ++ hashes) of
                           None \<Rightarrow> None
                         | Some (objects', Some e) \<Rightarrow> Some (fs', objects', Inl e)
                         | Some (objects', None) \<Rightarrow> Some (fs', objects', Inr objects')))))"
        using k Some pr False by (simp add: update_checksums_from_def Let_def)
      from assms obtain rootdir where cp: "commonpath paths = Inr rootdir"
        unfolding unf by (cases "commonpath paths") simp_all
      obtain objs1 err where rm0: "?rm = (objs1, err)" by (cases ?rm)
      from assms cp rm0 have "err = None"
        unfolding unf by (cases err) simp_all
      then have rm: "?rm = (objs1, None)" using rm0 by simp
      have o1: "sub_index objs1 objects"
      proof (cases "ptr \<noteq> []")
        case True
        then have "objs1 = fst (remove_paths_from_objects lim f objects ptr)"
          using rm by simp
        then show ?thesis by (simp add: remove_sub_index)
      next
        case False
        then show ?thesis using rm by (simp add: sub_index_refl)
      qed
      have unf2: "update_checksums_from D fs lim cs objects f ref =
                 (if (case objs1 rootdir of None \<Rightarrow> True | Some l \<Rightarrow> l = [])
                 then Some (full_walk D fs ?root f ref objs1)
                 else
                   (case walk_and_compute_sha1_from_directory D fs rootdir f False ref of
                      (fs', Inl e) \<Rightarrow> Some (fs', objs1, Inl e)
                    | (fs', Inr hashes) \<Rightarrow>
                        (case recompute_sha1_in_memory D ?root rootdir (objs1 ++ hashes) of
                           None \<Rightarrow> None
                         | Some (objects', Some e) \<Rightarrow> Some (fs', objects', Inl e)
                         | Some (objects', None) \<Rightarrow> Some (fs', objects', Inr objects'))))"
        unfolding unf by (simp only: cp rm sum.case option.case prod.case)
      show ?thesis
      proof (cases "case objs1 rootdir of None \<Rightarrow> True | Some l \<Rightarrow> l = []")
        case True
        then have "full_walk D fs ?root f ref objs1 = (fs', store, Inr idx')"
          using assms unfolding unf2 by simp
        then have "walk_and_compute_sha1_from_directory D fs ?root f True ref = (fs', Inr idx')"
          by (auto simp: full_walk_def split: prod.splits)
        then show ?thesis by blast
      next
        case nf: False
        obtain fsx res where w: "walk_and_compute_sha1_from_directory D fs rootdir f False ref = (fsx, res)"
          by (cases "walk_and_compute_sha1_from_directory D fs rootdir f False ref")
        have unf3: "update_checksums_from D fs lim cs objects f ref =
                   (case res of
                      Inl e \<Rightarrow> Some (fsx, objs1, Inl e)
                    | Inr hashes \<Rightarrow>
                        (case recompute_sha1_in_memory D ?root rootdir (objs1 ++ hashes) of
                           None \<Rightarrow> None
                         | Some (objects', Some e) \<Rightarrow> Some (fsx, objects', Inl e)
                         | Some (objects', None) \<Rightarrow> Some (fsx, objects', Inr objects')))"
          unfolding unf2 using nf w by simp
        from assms obtain hashes where h: "res = Inr hashes"
          unfolding unf3 by (cases res) simp_all
        from assms h
        have "fsx = fs' \<and> recompute_sha1_in_memory D ?root rootdir (objs1 ++ hashes) = Some (idx', None)"
          unfolding unf3
          by (cases "recompute_sha1_in_memory D ?root rootdir (objs1 ++ hashes)")
             (auto split: option.splits)
        then show ?thesis using o1 w h by blast
      qed
    qed
  qed
qed

text \<open>
  Claim C4. Every index returned by the walker is closed: each tree entry of each stored
  list has its own path as a key. Every index returned by the updater is closed up to the
  entries removed by cascading deletion: a tree entry whose path is no key of the returned
  index refers to a key of the incoming index that the call removed (or to a path that
  was already excepted in the incoming index).
\<close>

theorem index_closure:
  "(walk_and_compute_sha1_from_directory D fs rootdir dir_ok_fn with_root_tree remove_empty_folder
      = (fs', Inr idx) \<longrightarrow> closure idx) \<and>
   (closure_except R objects \<and>
    update_checksums_from D fs recursion_limit changed_paths objects dir_ok_fn remove_empty_folder
      = Some (fs'', store, Inr idx')
    \<longrightarrow> closure_except (R \<union> (dom objects - dom idx')) idx')"
proof (intro conjI impI)
  assume "walk_and_compute_sha1_from_directory D fs rootdir dir_ok_fn with_root_tree
            remove_empty_folder = (fs', Inr idx)"
  then show "closure idx" by (rule walk_closure)
next
  assume a: "closure_except R objects \<and>
    update_checksums_from D fs recursion_limit changed_paths objects dir_ok_fn remove_empty_folder
      = Some (fs'', store, Inr idx')"
  have weaken: "closure_except (R \<union> (dom objects - dom idx')) idx'"
    if "closure_except (R \<union> dom objects) idx'"
    using that unfolding closure_except_def by blast
  from a have c: "closure_except R objects" by simp
  from a have u: "update_checksums_from D fs recursion_limit changed_paths objects dir_ok_fn remove_empty_folder
      = Some (fs'', store, Inr idx')" by simp
  from update_Inr_cases [OF u] consider
    (full) root where "walk_and_compute_sha1_from_directory D fs root dir_ok_fn True
                          remove_empty_folder = (fs'', Inr idx')"
  | (same) "idx' = objects"
  | (part) root rootdir' objs1 hashes where
      "sub_index objs1 objects"
      "walk_and_compute_sha1_from_directory D fs rootdir' dir_ok_fn False remove_empty_folder
         = (fs'', Inr hashes)"
      "recompute_sha1_in_memory D root rootdir' (objs1 ++ hashes) = Some (idx', None)"
    by blast
  then show "closure_except (R \<union> (dom objects - dom idx')) idx'"
  proof cases
    case full
    then have "closure idx'" by (rule walk_closure)
    then show ?thesis unfolding closure_def closure_except_def by blast
  next
    case same
    then show ?thesis using c unfolding closure_except_def by blast
  next
    case part
    have s: "sub_index objs1 objects"
      by (rule part(1))
    have c1: "closure_except (R \<union> dom objects) objs1"
      by (rule sub_index_closure_except [OF s c])
    have ch: "closure hashes" using part(2) by (rule walk_closure)
    have c2: "closure_except (R \<union> dom objects) (objs1 ++ hashes)"
      unfolding closure_except_def
    proof (intro allI impI)
      fix p es e
      assume h: "(objs1 ++ hashes) p = Some es \<and> e \<in> set es \<and> type e = T_TREE"
      show "path e \<in> dom (objs1 ++ hashes) \<or> path e \<in> R \<union> dom objects"
      proof (cases "hashes p")
        case None
        then have "objs1 p = Some es" using h by (simp add: map_add_def)
        then have "path e \<in> dom objs1 \<or> path e \<in> R \<union> dom objects"
          using c1 h unfolding closure_except_def by blast
        then show ?thesis by auto
      next
        case (Some es')
        then have "es' = es" using h by (simp add: map_add_def)
        then have "path e \<in> dom hashes"
          using ch Some h unfolding closure_def by blast
        then show ?thesis by auto
      qed
    qed
    have "closure_except (R \<union> dom objects) idx'"
      by (rule recompute_sha1_in_memory_closure [OF part(3) c2])
    then show ?thesis by (rule weaken)
  qed
qed

theorem index_closure_witness:
  "closure example_index \<and>
   closure_except ({} \<union> (dom example_index - dom modified_index)) modified_index"
proof -
  have a: "closure example_index"
    using index_closure [where D = example_delegate and fs = example_fs and rootdir = "''/r''"
        and dir_ok_fn = "\<lambda>p. True" and with_root_tree = True and remove_empty_folder = False
        and fs' = example_fs and idx = example_index]
      walk_example by blast
  then have b: "closure_except {} example_index"
    unfolding closure_def closure_except_def by blast
  have "closure_except ({} \<union> (dom example_index - dom modified_index)) modified_index"
    using index_closure [where D = example_delegate and fs = modified_fs
        and dir_ok_fn = "\<lambda>p. True" and remove_empty_folder = False
        and R = "{}" and objects = example_index and changed_paths = example_change
        and fs'' = modified_fs and store = modified_index and idx' = modified_index]
      b update_example by blast
  with a show ?thesis by blast
qed

section \<open>Determinism of the walker\<close>

text \<open>
  Claim C8. Two runs of \<open>walk_and_compute_sha1_from_directory\<close> on the same directory
  tree state, with the same root, filter and options, give the same result (the same
  index, hence the same digests, or the same error). Without the pruning pass a run leaves
  the filesystem as it found it, so a second run after the first gives the same result
  again.
\<close>

theorem walk_deterministic:
  "(fs1 = fs2 \<and> rootdir1 = rootdir2 \<and> (\<forall>p. dir_ok_fn1 p = dir_ok_fn2 p) \<and>
    with_root_tree1 = with_root_tree2 \<and> remove_empty_folder1 = remove_empty_folder2
    \<longrightarrow> walk_and_compute_sha1_from_directory D fs1 rootdir1 dir_ok_fn1 with_root_tree1
            remove_empty_folder1
        = walk_and_compute_sha1_from_directory D fs2 rootdir2 dir_ok_fn2 with_root_tree2
            remove_empty_folder2) \<and>
   (walk_and_compute_sha1_from_directory D fs rootdir dir_ok_fn with_root_tree False = (fs', res)
    \<longrightarrow> fs' = fs \<and>
        walk_and_compute_sha1_from_directory D fs' rootdir dir_ok_fn with_root_tree False
          = (fs', res))"
proof (intro conjI impI)
  assume a: "fs1 = fs2 \<and> rootdir1 = rootdir2 \<and> (\<forall>p. dir_ok_fn1 p = dir_ok_fn2 p) \<and>
    with_root_tree1 = with_root_tree2 \<and> remove_empty_folder1 = remove_empty_folder2"
  then have "dir_ok_fn1 = dir_ok_fn2" by (intro ext) simp
  then show "walk_and_compute_sha1_from_directory D fs1 rootdir1 dir_ok_fn1 with_root_tree1
            remove_empty_folder1
        = walk_and_compute_sha1_from_directory D fs2 rootdir2 dir_ok_fn2 with_root_tree2
            remove_empty_folder2"
    using a by simp
next
  assume w: "walk_and_compute_sha1_from_directory D fs rootdir dir_ok_fn with_root_tree False
               = (fs', res)"
  have "fst (walk_and_compute_sha1_from_directory D fs rootdir dir_ok_fn with_root_tree False) = fs"
    by (simp add: walk_and_compute_sha1_from_directory_def Let_def
             split: sum.splits prod.splits option.splits)
  then show f: "fs' = fs" using w by simp
  show "walk_and_compute_sha1_from_directory D fs' rootdir dir_ok_fn with_root_tree False
          = (fs', res)"
    using w unfolding f .
qed

theorem walk_deterministic_witness:
  "walk_and_compute_sha1_from_directory example_delegate example_fs ''/r'' (\<lambda>p. True) True False
     = walk_and_compute_sha1_from_directory example_delegate example_fs ''/r'' (\<lambda>p. True) True False \<and>
   walk_and_compute_sha1_from_directory example_delegate example_fs ''/r'' (\<lambda>p. True) True False
     = (example_fs, Inr example_index)"
  using walk_deterministic [of example_fs example_fs "''/r''" "''/r''" "\<lambda>p. True" "\<lambda>p. True"
      True True False False example_delegate example_fs "''/r''" "\<lambda>p. True" True example_fs
      "Inr example_index"] walk_example
  by simp

section \<open>The updater against the full walk\<close>

text \<open>
  Claim C1 (evaluation of the code at the failing input). The index is the one the walker
  returns on the example with the filter that rejects \<^verbatim>\<open>/r/a\<close> only, so
  \<^verbatim>\<open>/r/a/b\<close> is a key and \<^verbatim>\<open>/r/a\<close> is none. After a change of
  \<^verbatim>\<open>/r/a/b/file.txt\<close>, whose parent is not the root, the updater walks
  \<^verbatim>\<open>/r/a/b\<close>, merges the result and raises \<^verbatim>\<open>KeyError\<close> on \<^verbatim>\<open>/r/a\<close> while
  recomputing the ancestors, where the full walk of the mutated filesystem with the same
  filter returns an index.
\<close>

theorem update_raises_where_full_walk_succeeds:
  "walk_and_compute_sha1_from_directory example_delegate example_fs ''/r'' example_filter True False
     = (example_fs, Inr orphan_index) \<and>
   example_change = [\<lparr>cpath = ''/r/a/b/file.txt'', action = ''M''\<rparr>] \<and>
   dirname ''/r/a/b/file.txt'' = ''/r/a/b'' \<and>
   update_checksums_from example_delegate modified_fs recursion_limit example_change orphan_index
     example_filter False
   = Some (modified_fs,
           orphan_index(''/r/a/b'' \<mapsto> [blob_entry ''/r/a/b/file.txt'' ''c:foobar'']),
           Inl (KeyError ''/r/a'')) \<and>
   walk_and_compute_sha1_from_directory example_delegate modified_fs ''/r'' example_filter True False
     = (modified_fs, Inr orphan_modified_index)"
  by (simp add: update_checksums_from_def orphan_index_keys path_tree_entry
      strip_trailing_sep_def sep_def scan_example commonpath_example walk_orphan_modified_b
      recompute_orphan walk_orphan_modified walk_orphan example_change_def dirname_example_file)

text \<open>
  With the filter that accepts every path, the same change on the same tree is handled as
  the claim says: the updater returns the index that the full walk of the mutated
  filesystem returns.
\<close>

lemma walk_modified:
  "walk_and_compute_sha1_from_directory example_delegate modified_fs ''/r'' (\<lambda>p. True) True False
     = (modified_fs, Inr modified_index)"
  by (simp add: walk_defs os_walk_modified [unfolded modified_fs_def] modified_fs_def
      modified_index_def)

lemma update_example_agrees_with_full_walk:
  "update_checksums_from example_delegate modified_fs recursion_limit example_change example_index
     (\<lambda>p. True) False
   = Some (modified_fs, modified_index,
           snd (walk_and_compute_sha1_from_directory example_delegate modified_fs ''/r''
                  (\<lambda>p. True) True False))"
  by (simp add: update_example walk_modified)

end
